theory Spec2Isabelle
  imports Main "HOL-Library.AList"
begin

section \<open>Values, errors and dictionaries\<close>

text \<open>
  Python exceptions raised on the paths modelled here. \<open>Raised\<close> is an exception of a
  value producer's own; \<open>Unsupported\<close> marks a replacement field or a \<open>bytes\<close> value
  outside the fragment of \<open>str.format\<close> that \<open>format_str\<close> covers (conversions, format
  specifications, attribute and index lookups, escaped \<open>bytes\<close> representations).
\<close>

datatype error =
    ValueError
  | KeyError string
  | IndexError
  | AttributeError string
  | TypeError
  | UnicodeEncodeError
  | OSError
  | Raised string
  | Unsupported

text \<open>
  Configuration values: \<open>str\<close>, \<open>bytes\<close> and \<open>int\<close>. A \<open>str\<close> is a list of code points
  below 256; \<open>bytes\<close> is a list of bytes.
\<close>

datatype pyval = Str string | Bytes string | Num int

text \<open>
  A dict is an association list in insertion order; \<open>d[k] = v\<close> replaces the value of
  a key that is present, where it stands, and appends a new key at the end.
\<close>

type_synonym 'v dict = "(string \<times> 'v) list"

definition setitem :: "'v dict \<Rightarrow> string \<Rightarrow> 'v \<Rightarrow> 'v dict" where
  "setitem d k v = AList.update k v d"

definition getitem :: "'v dict \<Rightarrow> string \<Rightarrow> error + 'v" where
  "getitem d k = (case map_of d k of None \<Rightarrow> Inl (KeyError k) | Some v \<Rightarrow> Inr v)"

definition keys :: "'v dict \<Rightarrow> string list" where
  "keys d = map fst d"

type_synonym addr = "string \<times> int"

section \<open>Byte-string primitives\<close>

abbreviation LF :: char where "LF \<equiv> CHR 0x0A"
abbreviation CR :: char where "CR \<equiv> CHR 0x0D"

text \<open>\<open>s.startswith(p)\<close>.\<close>

definition startswith :: "string \<Rightarrow> string \<Rightarrow> bool" where
  "startswith s p = (take (length p) s = p)"

text \<open>\<open>s.replace(b"\r", b"")\<close>.\<close>

definition remove_cr :: "string \<Rightarrow> string" where
  "remove_cr s = filter (\<lambda>c. c \<noteq> CR) s"

text \<open>\<open>s.split(sep)\<close> with a one-byte separator: every occurrence separates, empty pieces are kept.\<close>

primrec split :: "char \<Rightarrow> string \<Rightarrow> string list" where
  "split sep [] = [[]]"
| "split sep (c # cs) =
     (if c = sep then [] # split sep cs
      else (case split sep cs of w # ws \<Rightarrow> (c # w) # ws | [] \<Rightarrow> [[c]]))"

text \<open>\<open>s.split(sep, 1)\<close>: at most one split, at the first occurrence.\<close>

definition split1 :: "char \<Rightarrow> string \<Rightarrow> string list" where
  "split1 sep s =
     (if sep \<in> set s
      then [takeWhile (\<lambda>c. c \<noteq> sep) s, tl (dropWhile (\<lambda>c. c \<noteq> sep) s)]
      else [s])"

text \<open>\<open>bytes.strip()\<close> removes ASCII whitespace (space, tab, LF, VT, FF, CR) at both ends.\<close>

definition is_space :: "char \<Rightarrow> bool" where
  "is_space c = (c \<in> {CHR '' '', CHR 0x09, CHR 0x0A, CHR 0x0B, CHR 0x0C, CHR 0x0D})"

definition strip :: "string \<Rightarrow> string" where
  "strip s = rev (dropWhile is_space (rev (dropWhile is_space s)))"

section \<open>Request parser\<close>

text \<open>
  \<open>HEADERS\<close> is a \<open>defaultdict(list)\<close>: a header name maps to the list of its values,
  and a name that has never been stored reads as the empty list.
\<close>

record request =
  METHOD :: string
  PATH :: string
  VERSION :: string
  HEADERS :: "string list dict"
  REMOTE :: addr

definition header_values :: "string list dict \<Rightarrow> string \<Rightarrow> string list" where
  "header_values hs name = (case map_of hs name of None \<Rightarrow> [] | Some vs \<Rightarrow> vs)"

text \<open>\<open>result.HEADERS[header].append(value)\<close>.\<close>

definition append_header :: "string list dict \<Rightarrow> string \<Rightarrow> string \<Rightarrow> string list dict" where
  "append_header hs name v = setitem hs name (header_values hs name @ [v])"

text \<open>The loop over the lines of the header block; a non-blank line without a colon
  does not unpack into two names and raises \<open>ValueError\<close>.\<close>

fun parse_headers :: "string list \<Rightarrow> string list dict \<Rightarrow> error + string list dict" where
  "parse_headers [] hs = Inr hs"
| "parse_headers (l # ls) hs =
     (let line = strip l in
      if length line > 0 then
        (case split1 (CHR '':'') line of
           [header, v] \<Rightarrow> parse_headers ls (append_header hs header (strip v))
         | _ \<Rightarrow> Inl ValueError)
      else parse_headers ls hs)"

definition recognized :: "string \<Rightarrow> bool" where
  "recognized data = (startswith data ''M-SEARCH'' \<or> startswith data ''NOTIFY'')"

definition parse_search_request :: "string \<times> addr \<Rightarrow> error + request option" where
  "parse_search_request req =
     (case req of (data, sender) \<Rightarrow>
        if \<not> recognized data then Inr None
        else
          (case split1 LF (remove_cr data) of
             [http, headers] \<Rightarrow>
               (case split (CHR '' '') http of
                  [method, path, version] \<Rightarrow>
                    (case parse_headers (split LF headers) [] of
                       Inl e \<Rightarrow> Inl e
                     | Inr hs \<Rightarrow>
                         Inr (Some \<lparr>METHOD = method, PATH = path, VERSION = version,
                                    HEADERS = hs, REMOTE = sender\<rparr>))
                | _ \<Rightarrow> Inl ValueError)
           | _ \<Rightarrow> Inl ValueError))"

definition request_handlers :: "(string \<times> addr \<Rightarrow> error + request option) list" where
  "request_handlers = [parse_search_request]"

fun try_handlers ::
  "(string \<times> addr \<Rightarrow> error + request option) list \<Rightarrow> string \<times> addr \<Rightarrow> error + request option"
where
  "try_handlers [] req = Inr None"
| "try_handlers (h # hs) req =
     (case h req of
        Inl e \<Rightarrow> Inl e
      | Inr (Some result) \<Rightarrow> Inr (Some result)
      | Inr None \<Rightarrow> try_handlers hs req)"

definition parse_request :: "string \<times> addr \<Rightarrow> error + request option" where
  "parse_request req = try_handlers request_handlers req"


text \<open>
  The parser's input conditions in the specification's words: a datagram is well formed
  when it starts with a recognized verb, has a line break after the request line, its
  request line has exactly three space-separated tokens, and every non-blank header line
  has a colon. \<open>values_of\<close> lists, in order of appearance, the trimmed values of the
  header lines whose name (the text before the first colon) is the given one.
\<close>

definition request_line :: "string \<Rightarrow> string" where
  "request_line data = takeWhile (\<lambda>c. c \<noteq> LF) (remove_cr data)"

definition header_block :: "string \<Rightarrow> string" where
  "header_block data = tl (dropWhile (\<lambda>c. c \<noteq> LF) (remove_cr data))"

definition header_lines :: "string \<Rightarrow> string list" where
  "header_lines data = filter (\<lambda>l. length l > 0) (map strip (split LF (header_block data)))"

definition well_formed :: "string \<Rightarrow> bool" where
  "well_formed data =
     (recognized data \<and> LF \<in> set (remove_cr data) \<and>
      length (split (CHR '' '') (request_line data)) = 3 \<and>
      list_all (\<lambda>l. CHR '':'' \<in> set l) (header_lines data))"

definition header_pair :: "string \<Rightarrow> string \<times> string" where
  "header_pair l =
     (takeWhile (\<lambda>c. c \<noteq> CHR '':'') l, strip (tl (dropWhile (\<lambda>c. c \<noteq> CHR '':'') l)))"

definition values_of :: "string list \<Rightarrow> string \<Rightarrow> string list" where
  "values_of ls name = map snd (filter (\<lambda>p. fst p = name) (map header_pair ls))"

section \<open>Template substitution\<close>

text \<open>
  \<open>format_str s fmt\<close> is \<open>s.format(**fmt)\<close> for replacement fields that are plain
  keyword names. Doubled braces are literal braces; a single closing brace, or an
  opening brace that is never closed, raises \<open>ValueError\<close>; an empty or all-digit field
  name is a positional index, out of range since there are no positional arguments;
  a name that is not a key raises \<open>KeyError\<close>. Text and fields are handled from left to
  right, so the first failure is the one raised.
\<close>

function show_pos :: "int \<Rightarrow> string" where
  "show_pos n =
     (if n < 10 then [''0123456789'' ! nat n]
      else show_pos (n div 10) @ [''0123456789'' ! nat (n mod 10)])"
  by pat_completeness auto
termination
  by (relation "measure nat") auto

definition show_int :: "int \<Rightarrow> string" where
  "show_int i = (if i < 0 then CHR ''-'' # show_pos (- i) else show_pos i)"

definition is_plain :: "char \<Rightarrow> bool" where
  "is_plain c =
     (32 \<le> (of_char c :: nat) \<and> (of_char c :: nat) \<le> 126 \<and> c \<noteq> CHR 0x27 \<and> c \<noteq> CHR 0x5C)"

text \<open>\<open>format(v, '')\<close>: a \<open>str\<close> is itself, an \<open>int\<close> is its decimal numeral, \<open>bytes\<close>
  are shown as their literal \<open>b'...'\<close>.\<close>

definition format_value :: "pyval \<Rightarrow> error + string" where
  "format_value v =
     (case v of
        Str s \<Rightarrow> Inr s
      | Num i \<Rightarrow> Inr (show_int i)
      | Bytes b \<Rightarrow>
          if list_all is_plain b then Inr (''b'' @ [CHR 0x27] @ b @ [CHR 0x27])
          else Inl Unsupported)"

definition is_index :: "string \<Rightarrow> bool" where
  "is_index name = list_all (\<lambda>c. c \<in> set ''0123456789'') name"

definition field_value :: "pyval dict \<Rightarrow> string \<Rightarrow> error + string" where
  "field_value fmt name =
     (if is_index name then (if length name \<le> 18 then Inl IndexError else Inl Unsupported)
      else (case map_of fmt name of
              None \<Rightarrow> Inl (KeyError name)
            | Some v \<Rightarrow> format_value v))"

definition emit :: "string \<Rightarrow> error + string \<Rightarrow> error + string" where
  "emit out rest = (case rest of Inl e \<Rightarrow> Inl e | Inr s \<Rightarrow> Inr (out @ s))"

text \<open>The second argument is \<open>None\<close> in literal text and \<open>Some name\<close> inside a
  replacement field whose name so far is \<open>name\<close>.\<close>

fun format_from :: "pyval dict \<Rightarrow> string option \<Rightarrow> string \<Rightarrow> error + string" where
  "format_from fmt None [] = Inr []"
| "format_from fmt None [c] =
     (if c = CHR ''{'' \<or> c = CHR ''}'' then Inl ValueError else Inr [c])"
| "format_from fmt None (c # d # cs) =
     (if c = CHR ''{'' then
        (if d = CHR ''{'' then emit [c] (format_from fmt None cs)
         else format_from fmt (Some []) (d # cs))
      else if c = CHR ''}'' then
        (if d = CHR ''}'' then emit [c] (format_from fmt None cs) else Inl ValueError)
      else emit [c] (format_from fmt None (d # cs)))"
| "format_from fmt (Some name) [] = Inl ValueError"
| "format_from fmt (Some name) (c # cs) =
     (if c = CHR ''}'' then
        (case field_value fmt name of
           Inl e \<Rightarrow> Inl e
         | Inr v \<Rightarrow> emit v (format_from fmt None cs))
      else if c = CHR ''{'' then Inl ValueError
      else if c \<in> set ''!:.['' then Inl Unsupported
      else format_from fmt (Some (name @ [c])) cs)"

definition format_str :: "string \<Rightarrow> pyval dict \<Rightarrow> error + string" where
  "format_str s fmt = format_from fmt None s"

text \<open>\<open>.replace("\n", "\r\n")\<close> and \<open>.encode("ascii")\<close>.\<close>

definition crlf :: "string \<Rightarrow> string" where
  "crlf s = concat (map (\<lambda>c. if c = LF then [CR, LF] else [c]) s)"

definition encode_ascii :: "string \<Rightarrow> error + string" where
  "encode_ascii s =
     (if list_all (\<lambda>c. (of_char c :: nat) < 128) s then Inr s else Inl UnicodeEncodeError)"

text \<open>\<open>template.format(**fmt).replace("\n", "\r\n").encode("ascii")\<close>.\<close>

definition render :: "string \<Rightarrow> pyval dict \<Rightarrow> error + string" where
  "render template fmt =
     (case format_str template fmt of
        Inl e \<Rightarrow> Inl e
      | Inr s \<Rightarrow> encode_ascii (crlf s))"


section \<open>Execution state\<close>

text \<open>
  Effects are recorded as events, in the order in which they happen. \<open>Called key\<close>: the
  value producer stored under \<open>key\<close> was invoked. \<open>Sendto data dest\<close>: \<open>sock.sendto(data,
  dest)\<close> was called. \<open>Info m\<close>, \<open>Warn m\<close>: \<open>logger.info\<close>,
  \<open>logger.warn\<close> was called. \<open>Set_running b\<close>: the shared
  flag was assigned. \<open>Joined u\<close>: \<open>join()\<close> on the process of unit \<open>u\<close> returned, so
  that process has terminated.
\<close>

datatype unit_id = Receiver | Scheduler

datatype logmsg = Text string | Search_result "string list" bool

datatype event =
    Called string
  | Sendto string addr
  | Info logmsg
  | Warn logmsg
  | Set_running bool
  | Joined unit_id

text \<open>\<open>world\<close> is whatever the value producers read and change.\<close>

record 'w state =
  world :: 'w
  events :: "event list"

definition emit_event :: "event \<Rightarrow> 'w state \<Rightarrow> 'w state" where
  "emit_event e st = st\<lparr>events := events st @ [e]\<rparr>"

text \<open>The datagrams handed to \<open>sendto\<close> and the producers invoked, read off a trace.\<close>

fun sends :: "event list \<Rightarrow> (string \<times> addr) list" where
  "sends [] = []"
| "sends (Sendto data dest # es) = (data, dest) # sends es"
| "sends (e # es) = sends es"

fun calls :: "event list \<Rightarrow> string list" where
  "calls [] = []"
| "calls (Called key # es) = key # calls es"
| "calls (e # es) = calls es"

text \<open>A \<open>for\<close> loop whose body may raise: the first exception ends the loop and is
  the loop's result; \<open>acc\<close> carries the local variables the body assigns.\<close>

fun for_loop ::
  "('a \<Rightarrow> 'b \<Rightarrow> 's \<Rightarrow> (error + 'b) \<times> 's) \<Rightarrow> 'a list \<Rightarrow> 'b \<Rightarrow> 's \<Rightarrow> (error + 'b) \<times> 's"
where
  "for_loop body [] acc st = (Inr acc, st)"
| "for_loop body (x # xs) acc st =
     (case body x acc st of
        (Inl e, st') \<Rightarrow> (Inl e, st')
      | (Inr acc', st') \<Rightarrow> for_loop body xs acc' st')"

section \<open>Service model\<close>

text \<open>A descriptor param is a literal or a zero-argument callable; a callable reads
  and changes the world and returns a value or raises.\<close>

datatype 'w param = Literal pyval | Computed "'w \<Rightarrow> (error + pyval) \<times> 'w"

record 'w service_descriptor =
  params :: "'w param dict"
  services :: "pyval dict list"
  NOTIFY :: string
  OK :: string

text \<open>The first loop of \<open>create_fmt\<close>: \<open>fmt[key] = params[key]()\<close> for a callable,
  \<open>fmt[key] = params[key]\<close> otherwise.\<close>

definition eval_param ::
  "string \<times> 'w param \<Rightarrow> pyval dict \<Rightarrow> 'w state \<Rightarrow> (error + pyval dict) \<times> 'w state"
where
  "eval_param kp fmt st =
     (case kp of
        (key, Literal v) \<Rightarrow> (Inr (setitem fmt key v), st)
      | (key, Computed f) \<Rightarrow>
          (case f (world st) of
             (Inl e, w) \<Rightarrow> (Inl e, emit_event (Called key) (st\<lparr>world := w\<rparr>))
           | (Inr v, w) \<Rightarrow> (Inr (setitem fmt key v), emit_event (Called key) (st\<lparr>world := w\<rparr>))))"

text \<open>The second loop: \<open>fmt[key] = service[key]\<close> for every key of the service.\<close>

definition overlay :: "pyval dict \<Rightarrow> pyval dict \<Rightarrow> pyval dict" where
  "overlay service fmt = fold (\<lambda>kv d. setitem d (fst kv) (snd kv)) service fmt"

text \<open>The third loop, over the keys of \<open>fmt\<close> in order: a \<open>str\<close> value is replaced by
  its substitution against the mapping as it stands at that moment.\<close>

fun resolve_keys :: "string list \<Rightarrow> pyval dict \<Rightarrow> error + pyval dict" where
  "resolve_keys [] fmt = Inr fmt"
| "resolve_keys (key # ks) fmt =
     (case getitem fmt key of
        Inl e \<Rightarrow> Inl e
      | Inr (Str s) \<Rightarrow>
          (case format_str s fmt of
             Inl e \<Rightarrow> Inl e
           | Inr s' \<Rightarrow> resolve_keys ks (setitem fmt key (Str s')))
      | Inr _ \<Rightarrow> resolve_keys ks fmt)"

definition create_fmt ::
  "'w param dict \<Rightarrow> pyval dict \<Rightarrow> 'w state \<Rightarrow> (error + pyval dict) \<times> 'w state"
where
  "create_fmt ps service st =
     (case for_loop eval_param ps [] st of
        (Inl e, st') \<Rightarrow> (Inl e, st')
      | (Inr fmt, st') \<Rightarrow>
          (let merged = overlay service fmt in (resolve_keys (keys merged) merged, st')))"

text \<open>
  The vocabulary of the statements about \<open>create_fmt\<close>. \<open>substitute src v\<close> is what the
  substitution pass makes of the value \<open>v\<close> when the mapping stands at \<open>src\<close>: a \<open>str\<close> is
  formatted against \<open>src\<close>, any other value is kept. A plain name is a field name that
  \<open>format_str\<close> looks up as a key. \<open>computed_keys\<close> lists the keys of the callable
  params, in order. \<open>counter\<close> is a producer over an integer world: it returns the
  current count and increments it; \<open>nondecreasing\<close> params never lower that count.
\<close>

definition substitute :: "pyval dict \<Rightarrow> pyval \<Rightarrow> error + pyval" where
  "substitute src v =
     (case v of
        Str s \<Rightarrow> (case format_str s src of Inl e \<Rightarrow> Inl e | Inr s' \<Rightarrow> Inr (Str s'))
      | _ \<Rightarrow> Inr v)"

definition plain_name :: "string \<Rightarrow> bool" where
  "plain_name name = (\<not> is_index name \<and> list_all (\<lambda>c. c \<notin> set ''{}!:.['') name)"

definition computed_keys :: "'w param dict \<Rightarrow> string list" where
  "computed_keys ps = concat (map (\<lambda>kp. case snd kp of Computed f \<Rightarrow> [fst kp] | Literal v \<Rightarrow> []) ps)"

definition counter :: "int \<Rightarrow> (error + pyval) \<times> int" where
  "counter w = (Inr (Num w), w + 1)"

definition nondecreasing :: "int param dict \<Rightarrow> bool" where
  "nondecreasing ps = (\<forall>k g. (k, Computed g) \<in> set ps \<longrightarrow> (\<forall>w. w \<le> snd (g w)))"


section \<open>Responder\<close>

text \<open>\<open>sock\<close> is the outcome of \<open>self.sock.sendto\<close> for a datagram and a destination:
  \<open>None\<close> when the call returns, \<open>Some e\<close> when it raises \<open>e\<close>. \<open>services_opt\<close> is the
  constructor's \<open>services\<close> argument, \<open>None\<close> by default.\<close>

record 'w responder =
  address :: string
  port :: int
  buffer_size :: int
  services_opt :: "'w service_descriptor list option"
  sock :: "string \<Rightarrow> addr \<Rightarrow> error option"

definition sendto :: "'w responder \<Rightarrow> string \<Rightarrow> addr \<Rightarrow> 'w state \<Rightarrow> (error + unit) \<times> 'w state" where
  "sendto r data dest st =
     (case sock r data dest of
        None \<Rightarrow> (Inr (), emit_event (Sendto data dest) st)
      | Some e \<Rightarrow> (Inl e, emit_event (Sendto data dest) st))"

definition send ::
  "'w responder \<Rightarrow> 'w service_descriptor \<Rightarrow> string \<Rightarrow> addr \<Rightarrow> 'w state \<Rightarrow> (error + unit) \<times> 'w state"
where
  "send r service_descriptor response_data REQUEST st = sendto r response_data REQUEST st"

text \<open>The test on one search target: a value that does not start with \<open>ssdp:\<close> must
  equal \<open>fmt['st'].encode("ascii")\<close>.\<close>

definition st_test :: "pyval dict \<Rightarrow> string \<Rightarrow> error + bool" where
  "st_test fmt request_type =
     (if \<not> startswith request_type ''ssdp:'' then
        (case getitem fmt ''st'' of
           Inl e \<Rightarrow> Inl e
         | Inr (Str s) \<Rightarrow>
             (case encode_ascii s of
                Inl e \<Rightarrow> Inl e
              | Inr b \<Rightarrow> Inr (b = request_type))
         | Inr _ \<Rightarrow> Inl (AttributeError ''encode''))
      else Inr True)"

text \<open>The body of the loop over \<open>request.HEADERS[b'ST']\<close>; \<open>found\<close> is the local flag.\<close>

definition respond_type ::
  "'w responder \<Rightarrow> 'w service_descriptor \<Rightarrow> pyval dict \<Rightarrow> request \<Rightarrow> string \<Rightarrow> bool \<Rightarrow>
   'w state \<Rightarrow> (error + bool) \<times> 'w state"
where
  "respond_type r sd fmt request request_type found st =
     (case st_test fmt request_type of
        Inl e \<Rightarrow> (Inl e, st)
      | Inr False \<Rightarrow> (Inr found, st)
      | Inr True \<Rightarrow>
          (case render (OK sd) fmt of
             Inl e \<Rightarrow> (Inl e, st)
           | Inr response_data \<Rightarrow>
               (case send r sd response_data (REMOTE request) st of
                  (Inl e, st') \<Rightarrow> (Inl e, st')
                | (Inr u, st') \<Rightarrow> (Inr True, st'))))"

text \<open>The body of the loop over the services of one descriptor.\<close>

definition respond_service ::
  "'w responder \<Rightarrow> request \<Rightarrow> 'w service_descriptor \<Rightarrow> pyval dict \<Rightarrow> bool \<Rightarrow>
   'w state \<Rightarrow> (error + bool) \<times> 'w state"
where
  "respond_service r request sd service found st =
     (case create_fmt (params sd) service st of
        (Inl e, st') \<Rightarrow> (Inl e, st')
      | (Inr fmt, st') \<Rightarrow>
          for_loop (respond_type r sd fmt request) (header_values (HEADERS request) ''ST'') found st')"

definition respond_descriptor ::
  "'w responder \<Rightarrow> request \<Rightarrow> 'w service_descriptor \<Rightarrow> bool \<Rightarrow> 'w state \<Rightarrow> (error + bool) \<times> 'w state"
where
  "respond_descriptor r request sd found st =
     for_loop (respond_service r request sd) (services sd) found st"

text \<open>Iterating over \<open>self.services\<close> when it is \<open>None\<close> raises \<open>TypeError\<close>. The keys of
  a request are the five \<open>str\<close> names of its fields, so \<open>b'MX' in request\<close> is false and
  the debug line is never reached.\<close>

definition respond_ok_static :: "'w responder \<Rightarrow> request \<Rightarrow> 'w state \<Rightarrow> (error + unit) \<times> 'w state" where
  "respond_ok_static r request st =
     (case services_opt r of
        None \<Rightarrow> (Inl TypeError, st)
      | Some sds \<Rightarrow>
          (case for_loop (respond_descriptor r request) sds False st of
             (Inl e, st') \<Rightarrow> (Inl e, st')
           | (Inr found, st') \<Rightarrow>
               (Inr (),
                emit_event (Info (Search_result (header_values (HEADERS request) ''ST'') found)) st')))"

definition respond_ok :: "'w responder \<Rightarrow> request \<Rightarrow> 'w state \<Rightarrow> (error + unit) \<times> 'w state" where
  "respond_ok r request st =
     (if services_opt r \<noteq> None then respond_ok_static r request st else (Inr (), st))"

text \<open>One iteration of the dispatcher loop of \<open>run\<close>, for the datagram taken from the
  queue, and the loop over the datagrams taken while the flag is set.\<close>

definition run_step :: "'w responder \<Rightarrow> string \<times> addr \<Rightarrow> unit \<Rightarrow> 'w state \<Rightarrow> (error + unit) \<times> 'w state" where
  "run_step r datagram u st =
     (case parse_request datagram of
        Inl e \<Rightarrow> (Inl e, st)
      | Inr None \<Rightarrow> (Inr (), st)
      | Inr (Some request) \<Rightarrow>
          if METHOD request = ''M-SEARCH'' then respond_ok r request st else (Inr (), st))"

definition run :: "'w responder \<Rightarrow> (string \<times> addr) list \<Rightarrow> 'w state \<Rightarrow> (error + unit) \<times> 'w state" where
  "run r datagrams st = for_loop (run_step r) datagrams () st"

text \<open>\<open>do_notify\<close>: one datagram per service of every descriptor, to the multicast group.\<close>

definition notify_service ::
  "'w responder \<Rightarrow> string \<Rightarrow> 'w service_descriptor \<Rightarrow> pyval dict \<Rightarrow> unit \<Rightarrow>
   'w state \<Rightarrow> (error + unit) \<times> 'w state"
where
  "notify_service r nts sd service u st =
     (case create_fmt (params sd) service st of
        (Inl e, st') \<Rightarrow> (Inl e, st')
      | (Inr fmt, st') \<Rightarrow>
          (case render (NOTIFY sd) (setitem fmt ''nts'' (Bytes nts)) of
             Inl e \<Rightarrow> (Inl e, st')
           | Inr response_data \<Rightarrow> sendto r response_data (address r, port r) st'))"

definition notify_descriptor ::
  "'w responder \<Rightarrow> string \<Rightarrow> 'w service_descriptor \<Rightarrow> unit \<Rightarrow> 'w state \<Rightarrow> (error + unit) \<times> 'w state"
where
  "notify_descriptor r nts sd u st = for_loop (notify_service r nts sd) (services sd) u st"

definition do_notify :: "'w responder \<Rightarrow> string \<Rightarrow> 'w state \<Rightarrow> (error + unit) \<times> 'w state" where
  "do_notify r nts st =
     (case services_opt r of
        None \<Rightarrow> (Inl TypeError, st)
      | Some sds \<Rightarrow> for_loop (notify_descriptor r nts) sds () st)"

text \<open>
  \<open>schedule_handler\<close>: one announcement pass at start, then the loop that runs while the
  flag is set. \<open>ticks\<close> has one entry per iteration of that loop, true when the periodic
  job is due in it, so that \<open>run_pending\<close> runs \<open>do_notify(b"ssdp:alive")\<close>. The sleeps
  have no effect on the state.
\<close>

definition schedule_step :: "'w responder \<Rightarrow> bool \<Rightarrow> unit \<Rightarrow> 'w state \<Rightarrow> (error + unit) \<times> 'w state" where
  "schedule_step r due u st = (if due then do_notify r ''ssdp:alive'' st else (Inr (), st))"

definition schedule_handler :: "'w responder \<Rightarrow> bool list \<Rightarrow> 'w state \<Rightarrow> (error + unit) \<times> 'w state" where
  "schedule_handler r ticks st =
     (case do_notify r ''ssdp:alive'' st of
        (Inl e, st1) \<Rightarrow> (Inl e, st1)
      | (Inr u, st1) \<Rightarrow>
          (case for_loop (schedule_step r) ticks () st1 of
             (Inl e, st2) \<Rightarrow> (Inl e, st2)
           | (Inr u', st2) \<Rightarrow>
               (Inr (), emit_event (Warn (Text ''Scheduler shutting down...'')) st2)))"

text \<open>\<open>join()\<close> returns once the process has left its loop; \<open>exits u\<close> says whether unit
  \<open>u\<close> does so after the flag is cleared. A join that never returns is \<open>None\<close>.\<close>

definition join :: "(unit_id \<Rightarrow> bool) \<Rightarrow> unit_id \<Rightarrow> 'w state \<Rightarrow> 'w state option" where
  "join exits u st = (if exits u then Some (emit_event (Joined u) st) else None)"

definition shutdown ::
  "'w responder \<Rightarrow> (unit_id \<Rightarrow> bool) \<Rightarrow> 'w state \<Rightarrow> ((error + unit) \<times> 'w state) option"
where
  "shutdown r exits st =
     (case join exits Scheduler (emit_event (Set_running False) st) of
        None \<Rightarrow> None
      | Some st1 \<Rightarrow>
          (case join exits Receiver st1 of
             None \<Rightarrow> None
           | Some st2 \<Rightarrow>
               (case do_notify r ''ssdp:goodbye'' st2 of
                  (Inl e, st3) \<Rightarrow> Some (Inl e, st3)
                | (Inr u, st3) \<Rightarrow>
                    Some (Inr (),
                      emit_event (Info (Text ''---------------------------''))
                        (emit_event (Info (Text ''Shutdown'')) st3)))))"


section \<open>Construction of the spoofing responder\<close>

text \<open>
  The operating-system side of construction: the identity of the process and the trace
  of what it has done. Opening a raw socket needs privilege, taken here as user id 0.
  \<open>Started u\<close>: the process of unit \<open>u\<close> was started; it inherits the identity the
  constructing process has at that moment.
\<close>

datatype sys_event =
    Raw_socket_opened
  | Packet_socket_opened
  | Bound string
  | Started unit_id
  | Setgroups "int list"
  | Setgid int
  | Setuid int
  | Umask int

record process =
  uid :: int
  gid :: int
  groups :: "int list"
  umask :: int
  trace :: "sys_event list"

text \<open>The instance attributes read during construction; \<open>None\<close> is an attribute that
  has not been assigned.\<close>

record spoofer =
  interface :: "string option"
  user :: "string option"
  group :: "string option"

definition new_spoofer :: spoofer where
  "new_spoofer = \<lparr>interface = None, user = None, group = None\<rparr>"

text \<open>\<open>SpoofingUPnPServiceResponder.setup_sockets\<close>.\<close>

definition spoofing_setup_sockets :: "spoofer \<Rightarrow> process \<Rightarrow> (error + unit) \<times> process" where
  "spoofing_setup_sockets self p =
     (if uid p \<noteq> 0 then (Inl OSError, p)
      else
        (let p1 = p\<lparr>trace := trace p @ [Raw_socket_opened, Packet_socket_opened]\<rparr> in
         case interface self of
           None \<Rightarrow> (Inl (AttributeError ''interface''), p1)
         | Some i \<Rightarrow> (Inr (), p1\<lparr>trace := trace p1 @ [Bound i]\<rparr>)))"

text \<open>\<open>UPnPServiceResponder.__init__\<close>, with the \<open>setup_sockets\<close> of the object's class:
  the sockets are set up, then the receiver and the scheduler processes are started.\<close>

definition base_init ::
  "(spoofer \<Rightarrow> process \<Rightarrow> (error + unit) \<times> process) \<Rightarrow> spoofer \<Rightarrow> process \<Rightarrow> (error + unit) \<times> process"
where
  "base_init setup_sockets self p =
     (case setup_sockets self p of
        (Inl e, p') \<Rightarrow> (Inl e, p')
      | (Inr u, p') \<Rightarrow> (Inr (), p'\<lparr>trace := trace p' @ [Started Receiver, Started Scheduler]\<rparr>))"

text \<open>\<open>drop_privileges\<close>; \<open>getpwnam\<close> and \<open>getgrnam\<close> are the user and group databases.\<close>

definition drop_privileges ::
  "(string \<Rightarrow> int option) \<Rightarrow> (string \<Rightarrow> int option) \<Rightarrow> string \<Rightarrow> string \<Rightarrow> process \<Rightarrow>
   (error + unit) \<times> process"
where
  "drop_privileges getpwnam getgrnam uid_name gid_name p =
     (if uid p \<noteq> 0 then (Inr (), p)
      else
        (case getpwnam uid_name of
           None \<Rightarrow> (Inl (KeyError uid_name), p)
         | Some running_uid \<Rightarrow>
             (case getgrnam gid_name of
                None \<Rightarrow> (Inl (KeyError gid_name), p)
              | Some running_gid \<Rightarrow>
                  (Inr (),
                   p\<lparr>groups := [], gid := running_gid, uid := running_uid, umask := 63,
                     trace := trace p @
                       [Setgroups [], Setgid running_gid, Setuid running_uid, Umask 63]\<rparr>))))"

text \<open>\<open>SpoofingUPnPServiceResponder.__init__\<close>: the base constructor runs first, then
  \<open>group\<close>, \<open>user\<close> and \<open>interface\<close> are assigned, then privileges are dropped.\<close>

definition spoofing_init ::
  "(string \<Rightarrow> int option) \<Rightarrow> (string \<Rightarrow> int option) \<Rightarrow> string \<Rightarrow> string \<Rightarrow> string \<Rightarrow>
   spoofer \<Rightarrow> process \<Rightarrow> (error + unit) \<times> spoofer \<times> process"
where
  "spoofing_init getpwnam getgrnam usr grp iface self p =
     (case base_init spoofing_setup_sockets self p of
        (Inl e, p') \<Rightarrow> (Inl e, self, p')
      | (Inr u, p') \<Rightarrow>
          (let self' = self\<lparr>group := Some grp, user := Some usr, interface := Some iface\<rparr> in
           case drop_privileges getpwnam getgrnam usr grp p' of
             (res, p'') \<Rightarrow> (res, self', p'')))"

section \<open>Example configuration\<close>

definition root_process :: process where
  "root_process = \<lparr>uid = 0, gid = 0, groups = [0], umask = 18, trace = []\<rparr>"

definition passwd :: "string \<Rightarrow> int option" where
  "passwd name = (if name = ''nobody'' then Some 65534 else if name = ''root'' then Some 0 else None)"

definition groupdb :: "string \<Rightarrow> int option" where
  "groupdb name = (if name = ''nogroup'' then Some 65534 else if name = ''root'' then Some 0 else None)"

definition example_search :: string where
  "example_search =
     ''M-SEARCH * HTTP/1.1'' @ [CR, LF] @ ''ST: urn:a'' @ [CR, LF] @ ''MX:2'' @ [CR, LF] @
     ''ST:  urn:b '' @ [CR, LF] @ [CR, LF]"

definition example_notify :: string where
  "example_notify = ''NOTIFY * HTTP/1.1'' @ [CR, LF] @ ''NTS: ssdp:alive'' @ [CR, LF]"

definition malformed_search :: string where
  "malformed_search = ''M-SEARCH * HTTP/1.1 extra'' @ [CR, LF] @ ''ST: urn:a'' @ [CR, LF]"

definition requester :: addr where
  "requester = (''10.0.0.7'', 50000)"

definition empty_state :: "unit state" where
  "empty_state = \<lparr>world = (), events = []\<rparr>"

definition idle_responder :: "unit responder" where
  "idle_responder =
     \<lparr>address = ''239.255.255.250'', port = 1900, buffer_size = 4096, services_opt = None,
      sock = (\<lambda>data dest. None)\<rparr>"

definition chain_service :: "pyval dict" where
  "chain_service = [(''a'', Str ''{b}''), (''b'', Str ''{c}''), (''c'', Str ''x{a}'')]"

definition chain_resolved :: "pyval dict" where
  "chain_resolved = [(''a'', Str ''{c}''), (''b'', Str ''x{a}''), (''c'', Str ''x{c}'')]"

definition override_params :: "unit param dict" where
  "override_params = [(''st'', Literal (Str ''urn:generic'')), (''ip'', Literal (Str ''10.0.0.2''))]"

definition override_service :: "pyval dict" where
  "override_service = [(''st'', Str ''urn:{ip}''), (''port'', Num 8080)]"

definition override_resolved :: "pyval dict" where
  "override_resolved =
     [(''st'', Str ''urn:10.0.0.2''), (''ip'', Str ''10.0.0.2''), (''port'', Num 8080)]"

definition boot_params :: "int param dict" where
  "boot_params = [(''ip'', Literal (Str ''10.0.0.2'')), (''bootid'', Computed counter)]"

definition boot_service :: "pyval dict" where
  "boot_service = [(''st'', Str ''urn:a:{bootid}'')]"

definition boot_state :: "int \<Rightarrow> event list \<Rightarrow> int state" where
  "boot_state n es = \<lparr>world = n, events = es\<rparr>"


section \<open>Vocabulary of the statements about responses\<close>

text \<open>
  \<open>resolve\<close> is \<open>create_fmt\<close> as a function of the world alone, the events it records
  left out. \<open>all_services\<close> lists every service with its descriptor, in the order of the
  two nested loops. \<open>resolve_all\<close> resolves the fields of these services one after the
  other, each from the world the one before has left, up to the first that fails; it
  returns the resolved fields and the world reached.
\<close>

definition resolve :: "'w param dict \<Rightarrow> pyval dict \<Rightarrow> 'w \<Rightarrow> (error + pyval dict) \<times> 'w" where
  "resolve ps service w =
     (case create_fmt ps service \<lparr>world = w, events = []\<rparr> of (res, s) \<Rightarrow> (res, world s))"

definition all_services :: "'w service_descriptor list \<Rightarrow> ('w service_descriptor \<times> pyval dict) list" where
  "all_services sds = concat (map (\<lambda>sd. map (Pair sd) (services sd)) sds)"

fun resolve_all ::
  "('w service_descriptor \<times> pyval dict) list \<Rightarrow> 'w \<Rightarrow> ('w service_descriptor \<times> pyval dict) list \<times> 'w"
where
  "resolve_all [] w = ([], w)"
| "resolve_all (p # rest) w =
     (case resolve (params (fst p)) (snd p) w of
        (Inl e, w') \<Rightarrow> ([], w')
      | (Inr fmt, w') \<Rightarrow>
          (case resolve_all rest w' of (fs, w'') \<Rightarrow> ((fst p, fmt) # fs, w'')))"

text \<open>
  The matching rule in the specification's words: a search target that starts with
  \<open>ssdp:\<close> always matches; any other matches when it equals the resolved \<open>st\<close> field.
  \<open>responses\<close> are the datagrams owed for one service with resolved fields \<open>fmt\<close>: the
  rendered search response, to the requester, once per matching search target.
  \<open>search_responses\<close> are the responses of all services, for the fields resolved from
  the world \<open>w\<close> on. \<open>rendered_if_matched\<close> says that the response template rendered
  whenever a search target matched.
\<close>

definition st_matches :: "pyval dict \<Rightarrow> string \<Rightarrow> bool" where
  "st_matches fmt v = (if startswith v ''ssdp:'' then True else map_of fmt ''st'' = Some (Str v))"

definition responses :: "'w service_descriptor \<Rightarrow> request \<Rightarrow> pyval dict \<Rightarrow> (string \<times> addr) list" where
  "responses sd request fmt =
     (case render (OK sd) fmt of
        Inl e \<Rightarrow> []
      | Inr data \<Rightarrow>
          map (\<lambda>v. (data, REMOTE request))
            (filter (st_matches fmt) (header_values (HEADERS request) ''ST'')))"

definition search_responses ::
  "request \<Rightarrow> ('w service_descriptor \<times> pyval dict) list \<Rightarrow> 'w \<Rightarrow> (string \<times> addr) list"
where
  "search_responses request pairs w =
     concat (map (\<lambda>p. responses (fst p) request (snd p)) (fst (resolve_all pairs w)))"

definition rendered_if_matched :: "request \<Rightarrow> 'w service_descriptor \<Rightarrow> pyval dict \<Rightarrow> bool" where
  "rendered_if_matched request sd fmt =
     (list_ex (st_matches fmt) (header_values (HEADERS request) ''ST'') \<longrightarrow>
        \<not> isl (render (OK sd) fmt))"

text \<open>
  \<open>announcement nts dest (sd, fmt)\<close> is the datagram of one announcement: the \<open>NOTIFY\<close>
  template rendered with the resolved fields and \<open>nts\<close>, and its destination.
  \<open>announcements\<close> are those of one pass over all services, from the world \<open>w\<close>.
  \<open>alive_passes\<close> are those of the scheduler: one \<open>ssdp:alive\<close> pass for every true
  tick, each pass from the world the one before has left.
\<close>

definition announcement ::
  "string \<Rightarrow> addr \<Rightarrow> 'w service_descriptor \<times> pyval dict \<Rightarrow> error + string \<times> addr"
where
  "announcement nts dest p =
     (case render (NOTIFY (fst p)) (setitem (snd p) ''nts'' (Bytes nts)) of
        Inl e \<Rightarrow> Inl e
      | Inr data \<Rightarrow> Inr (data, dest))"

definition announcements ::
  "string \<Rightarrow> addr \<Rightarrow> ('w service_descriptor \<times> pyval dict) list \<Rightarrow> 'w \<Rightarrow> (error + string \<times> addr) list"
where
  "announcements nts dest pairs w = map (announcement nts dest) (fst (resolve_all pairs w))"

fun alive_passes ::
  "addr \<Rightarrow> ('w service_descriptor \<times> pyval dict) list \<Rightarrow> bool list \<Rightarrow> 'w \<Rightarrow> (error + string \<times> addr) list"
where
  "alive_passes dest pairs [] w = []"
| "alive_passes dest pairs (due # ticks) w =
     (if due
      then announcements ''ssdp:alive'' dest pairs w @
           alive_passes dest pairs ticks (snd (resolve_all pairs w))
      else alive_passes dest pairs ticks w)"

text \<open>
  \<open>delivered\<close>: every one of the sends returned. \<open>stops_at_failure\<close> relates the result
  of a call to the sends attempted so far: after a normal return all of them were
  delivered; after an exception either all were delivered, or all but the last were and
  the last raised the exception that is the result.
\<close>

definition delivered :: "'w responder \<Rightarrow> (string \<times> addr) list \<Rightarrow> bool" where
  "delivered r ss = list_all (\<lambda>da. sock r (fst da) (snd da) = None) ss"

definition stops_at_failure :: "'w responder \<Rightarrow> error + 'a \<Rightarrow> (string \<times> addr) list \<Rightarrow> bool" where
  "stops_at_failure r res ss =
     (case res of
        Inr x \<Rightarrow> delivered r ss
      | Inl e \<Rightarrow>
          delivered r ss \<or>
          (ss \<noteq> [] \<and> delivered r (butlast ss) \<and> sock r (fst (last ss)) (snd (last ss)) = Some e))"

section \<open>Example responders\<close>

definition two_services :: "unit service_descriptor" where
  "two_services =
     \<lparr>params = [(''ip'', Literal (Str ''10.0.0.2''))],
      services = [[(''st'', Str ''urn:a'')], [(''st'', Str ''urn:c'')]],
      NOTIFY = ''NOTIFY {st} {nts}'' @ [LF],
      OK = ''OK {st} {ip}'' @ [LF]\<rparr>"

definition search_responder :: "unit responder" where
  "search_responder =
     \<lparr>address = ''239.255.255.250'', port = 1900, buffer_size = 4096,
      services_opt = Some [two_services], sock = (\<lambda>data dest. None)\<rparr>"

definition search_request :: request where
  "search_request =
     \<lparr>METHOD = ''M-SEARCH'', PATH = ''*'', VERSION = ''HTTP/1.1'',
      HEADERS = [(''ST'', [''urn:a'', ''ssdp:all'', ''urn:b''])], REMOTE = requester\<rparr>"

definition ok_a :: string where
  "ok_a = ''OK urn:a 10.0.0.2'' @ [CR, LF]"

definition ok_c :: string where
  "ok_c = ''OK urn:c 10.0.0.2'' @ [CR, LF]"

definition bye_a :: string where
  "bye_a = ''NOTIFY urn:a b'' @ [CHR 0x27] @ ''ssdp:goodbye'' @ [CHR 0x27, CR, LF]"

definition bye_c :: string where
  "bye_c = ''NOTIFY urn:c b'' @ [CHR 0x27] @ ''ssdp:goodbye'' @ [CHR 0x27, CR, LF]"

definition multicast_group :: addr where
  "multicast_group = (''239.255.255.250'', 1900)"

text \<open>A responder whose socket rejects the datagrams of the service \<open>urn:a\<close>.\<close>

definition failing_responder :: "unit responder" where
  "failing_responder =
     search_responder\<lparr>sock := (\<lambda>data dest. if data = ok_a \<or> data = bye_a then Some OSError else None)\<rparr>"

text \<open>The states these responders reach from the empty state.\<close>

definition search_done :: "unit state" where
  "search_done =
     \<lparr>world = (),
      events = [Sendto ok_a requester, Sendto ok_a requester, Sendto ok_c requester,
                Info (Search_result [''urn:a'', ''ssdp:all'', ''urn:b''] True)]\<rparr>"

definition failed_search :: "unit state" where
  "failed_search = \<lparr>world = (), events = [Sendto ok_a requester]\<rparr>"

definition failed_notify :: "unit state" where
  "failed_notify = \<lparr>world = (), events = [Sendto bye_a multicast_group]\<rparr>"

definition shutdown_done :: "unit state" where
  "shutdown_done =
     \<lparr>world = (),
      events = [Set_running False, Joined Scheduler, Joined Receiver,
                Sendto bye_a multicast_group, Sendto bye_c multicast_group,
                Info (Text ''Shutdown''), Info (Text ''---------------------------'')]\<rparr>"

definition discovery_datagram :: string where
  "discovery_datagram = ''M-SEARCH * HTTP/1.1'' @ [CR, LF] @ ''ST: ssdp:all'' @ [CR, LF]"

definition discovery_request :: request where
  "discovery_request =
     \<lparr>METHOD = ''M-SEARCH'', PATH = ''*'', VERSION = ''HTTP/1.1'',
      HEADERS = [(''ST'', [''ssdp:all''])], REMOTE = requester\<rparr>"

definition alive_a :: string where
  "alive_a = ''NOTIFY urn:a b'' @ [CHR 0x27] @ ''ssdp:alive'' @ [CHR 0x27, CR, LF]"

definition alive_c :: string where
  "alive_c = ''NOTIFY urn:c b'' @ [CHR 0x27] @ ''ssdp:alive'' @ [CHR 0x27, CR, LF]"

definition scheduler_done :: "unit state" where
  "scheduler_done =
     \<lparr>world = (),
      events = [Sendto alive_a multicast_group, Sendto alive_c multicast_group,
                Sendto alive_a multicast_group, Sendto alive_c multicast_group,
                Warn (Text ''Scheduler shutting down...'')]\<rparr>"

definition override_evaluated :: "pyval dict" where
  "override_evaluated = [(''st'', Str ''urn:generic''), (''ip'', Str ''10.0.0.2'')]"

section \<open>Properties of the request parser\<close>

lemma header_values_append_header:
  "header_values (append_header hs n v) name =
     (if name = n then header_values hs n @ [v] else header_values hs name)"
  by (simp add: header_values_def append_header_def setitem_def update_conv')

lemma header_values_empty: "header_values [] name = []"
  by (simp add: header_values_def)

lemma parse_headers_values:
  "list_all (\<lambda>l. CHR '':'' \<in> set l) (filter (\<lambda>l. length l > 0) (map strip ls)) \<Longrightarrow>
   \<exists>hs'. parse_headers ls hs = Inr hs' \<and>
     (\<forall>name. header_values hs' name =
        header_values hs name @ values_of (filter (\<lambda>l. length l > 0) (map strip ls)) name)"
proof (induction ls arbitrary: hs)
  case Nil
  then show ?case by (simp add: values_of_def)
next
  case (Cons l ls)
  show ?case
  proof (cases "strip l = []")
    case True
    with Cons show ?thesis by simp
  next
    case False
    let ?hs = "append_header hs (fst (header_pair (strip l))) (snd (header_pair (strip l)))"
    from False Cons.prems have colon: "CHR '':'' \<in> set (strip l)"
      and rest: "list_all (\<lambda>l. CHR '':'' \<in> set l) (filter (\<lambda>l. length l > 0) (map strip ls))"
      by simp_all
    from Cons.IH [OF rest, of ?hs]
    obtain hs' where ok: "parse_headers ls ?hs = Inr hs'"
      and vals: "\<And>name. header_values hs' name =
        header_values ?hs name @ values_of (filter (\<lambda>l. length l > 0) (map strip ls)) name"
      by blast
    have "parse_headers (l # ls) hs = Inr hs'"
      using False colon ok by (simp add: split1_def header_pair_def)
    moreover have "\<And>name. header_values hs' name =
        header_values hs name @ values_of (filter (\<lambda>l. length l > 0) (map strip (l # ls))) name"
      using False by (simp add: vals header_values_append_header values_of_def)
    ultimately show ?thesis by blast
  qed
qed

lemma parse_headers_no_colon:
  "\<not> list_all (\<lambda>l. CHR '':'' \<in> set l) (filter (\<lambda>l. length l > 0) (map strip ls)) \<Longrightarrow>
   parse_headers ls hs = Inl ValueError"
proof (induction ls arbitrary: hs)
  case Nil
  then show ?case by simp
next
  case (Cons l ls)
  show ?case
  proof (cases "strip l = []")
    case True
    with Cons show ?thesis by simp
  next
    case False
    show ?thesis
    proof (cases "CHR '':'' \<in> set (strip l)")
      case True
      with False Cons.prems
      have "\<not> list_all (\<lambda>l. CHR '':'' \<in> set l) (filter (\<lambda>l. length l > 0) (map strip ls))"
        by simp
      from Cons.IH [OF this] False True show ?thesis by (simp add: split1_def)
    next
      case no: False
      with False show ?thesis by (simp add: split1_def)
    qed
  qed
qed

lemma three_tokens: "length xs = 3 \<Longrightarrow> \<exists>a b c. xs = [a, b, c]"
  by (cases xs; cases "tl xs"; cases "tl (tl xs)") auto

lemma parse_well_formed:
  assumes wf: "well_formed data"
  shows "\<exists>r. parse_request (data, sender) = Inr (Some r) \<and>
           [METHOD r, PATH r, VERSION r] = split (CHR '' '') (request_line data) \<and>
           REMOTE r = sender \<and>
           (\<forall>name. header_values (HEADERS r) name = values_of (header_lines data) name)"
proof -
  from wf obtain m p v where mpv: "split (CHR '' '') (request_line data) = [m, p, v]"
    unfolding well_formed_def using three_tokens by blast
  from wf have "list_all (\<lambda>l. CHR '':'' \<in> set l)
      (filter (\<lambda>l. length l > 0) (map strip (split LF (header_block data))))"
    by (simp add: well_formed_def header_lines_def)
  from parse_headers_values [OF this, of "[]"]
  obtain hs where hs: "parse_headers (split LF (header_block data)) [] = Inr hs"
    and vals: "\<And>name. header_values hs name = values_of (header_lines data) name"
    by (auto simp: header_values_empty header_lines_def)
  from wf have rec: "recognized data" and lf: "LF \<in> set (remove_cr data)"
    by (simp_all add: well_formed_def)
  have "parse_request (data, sender) =
      Inr (Some \<lparr>METHOD = m, PATH = p, VERSION = v, HEADERS = hs, REMOTE = sender\<rparr>)"
    using rec lf mpv hs
    by (simp add: parse_request_def request_handlers_def parse_search_request_def split1_def
        request_line_def header_block_def)
  with mpv vals show ?thesis by simp
qed

lemma parse_unrecognized:
  "\<not> recognized data \<Longrightarrow> parse_request (data, sender) = Inr None"
  by (simp add: parse_request_def request_handlers_def parse_search_request_def)

lemma parse_malformed:
  assumes rec: "recognized data" and bad: "\<not> well_formed data"
  shows "parse_request (data, sender) = Inl ValueError"
proof (cases "LF \<in> set (remove_cr data)")
  case False
  with rec show ?thesis
    by (simp add: parse_request_def request_handlers_def parse_search_request_def split1_def)
next
  case lf: True
  show ?thesis
  proof (cases "length (split (CHR '' '') (request_line data)) = 3")
    case False
    then have "(case split (CHR '' '') (request_line data) of
                  [method, path, version] \<Rightarrow> f method path version
                | _ \<Rightarrow> Inl ValueError) = Inl ValueError" for f :: "string \<Rightarrow> string \<Rightarrow> string \<Rightarrow> error + request option"
      by (auto split: list.splits)
    with rec lf show ?thesis
      by (simp add: parse_request_def request_handlers_def parse_search_request_def split1_def
          request_line_def)
  next
    case True
    then obtain m p v where mpv: "split (CHR '' '') (request_line data) = [m, p, v]"
      using three_tokens by blast
    from bad rec lf True
    have "\<not> list_all (\<lambda>l. CHR '':'' \<in> set l)
      (filter (\<lambda>l. length l > 0) (map strip (split LF (header_block data))))"
      by (simp add: well_formed_def header_lines_def)
    from parse_headers_no_colon [OF this, of "[]"] rec lf mpv show ?thesis
      by (simp add: parse_request_def request_handlers_def parse_search_request_def split1_def
          request_line_def header_block_def)
  qed
qed

text \<open>
  Claim C5. A datagram that begins with a recognized verb and is well formed parses to a
  request; under every header name the request holds the trimmed values of the header
  lines with that name (split at the first colon), repeats included, in their order of
  appearance. A datagram that does not begin with a recognized verb parses to \<open>None\<close>.
\<close>

theorem parse_preserves_repeated_headers:
  "(well_formed data \<longrightarrow>
      (\<exists>r. parse_request (data, sender) = Inr (Some r) \<and>
           [METHOD r, PATH r, VERSION r] = split (CHR '' '') (request_line data) \<and>
           REMOTE r = sender \<and>
           (\<forall>name. header_values (HEADERS r) name = values_of (header_lines data) name))) \<and>
   (\<not> recognized data \<longrightarrow> parse_request (data, sender) = Inr None)"
  using parse_well_formed parse_unrecognized by blast

lemma example_search_well_formed: "well_formed example_search"
  by code_simp

lemma example_search_values:
  "values_of (header_lines example_search) ''ST'' = [''urn:a'', ''urn:b'']"
  by code_simp

theorem parse_preserves_repeated_headers_witness:
  "well_formed example_search \<and>
   (\<exists>r. parse_request (example_search, requester) = Inr (Some r) \<and>
        header_values (HEADERS r) ''ST'' = [''urn:a'', ''urn:b'']) \<and>
   \<not> recognized ''HTTP/1.1 200 OK'' \<and>
   parse_request (''HTTP/1.1 200 OK'', requester) = Inr None"
proof -
  have nr: "\<not> recognized ''HTTP/1.1 200 OK''" by code_simp
  from parse_preserves_repeated_headers [of example_search requester]
    example_search_well_formed example_search_values
  have "\<exists>r. parse_request (example_search, requester) = Inr (Some r) \<and>
        header_values (HEADERS r) ''ST'' = [''urn:a'', ''urn:b'']"
    by auto
  moreover from parse_preserves_repeated_headers [of "''HTTP/1.1 200 OK''" requester] nr
  have "parse_request (''HTTP/1.1 200 OK'', requester) = Inr None" by blast
  ultimately show ?thesis using example_search_well_formed nr by blast
qed

section \<open>Properties of the dispatcher\<close>

text \<open>
  Claim C3, as stated, fails: a datagram that begins with \<open>M-SEARCH\<close> and whose request
  line has four tokens raises \<open>ValueError\<close> in the parser, and the dispatcher loop ends
  with that exception.
\<close>

theorem malformed_request_raises:
  "run idle_responder [(malformed_search, requester)] empty_state = (Inl ValueError, empty_state)"
  by code_simp

text \<open>
  Claim C3, amended. A datagram that does not begin with a recognized verb is dropped
  by the dispatcher without raising and without any effect. A well-formed datagram
  parses to a request, and when its method is not \<open>M-SEARCH\<close> it is dropped in the same
  way. A datagram that begins with a recognized verb and is not well formed raises
  \<open>ValueError\<close> out of the dispatcher's iteration.
\<close>

theorem dispatch_of_datagram:
  "(\<not> recognized data \<longrightarrow> run_step r (data, sender) () st = (Inr (), st)) \<and>
   (well_formed data \<longrightarrow>
      (\<exists>request. parse_request (data, sender) = Inr (Some request) \<and>
         (METHOD request \<noteq> ''M-SEARCH'' \<longrightarrow> run_step r (data, sender) () st = (Inr (), st)))) \<and>
   (recognized data \<and> \<not> well_formed data \<longrightarrow>
      run_step r (data, sender) () st = (Inl ValueError, st))"
proof (intro conjI impI)
  assume "\<not> recognized data"
  then show "run_step r (data, sender) () st = (Inr (), st)"
    by (simp add: run_step_def parse_unrecognized)
next
  assume "well_formed data"
  from parse_well_formed [OF this, of sender]
  obtain request where "parse_request (data, sender) = Inr (Some request)" by blast
  then show "\<exists>request. parse_request (data, sender) = Inr (Some request) \<and>
         (METHOD request \<noteq> ''M-SEARCH'' \<longrightarrow> run_step r (data, sender) () st = (Inr (), st))"
    by (simp add: run_step_def)
next
  assume "recognized data \<and> \<not> well_formed data"
  then show "run_step r (data, sender) () st = (Inl ValueError, st)"
    by (simp add: run_step_def parse_malformed)
qed

theorem dispatch_of_datagram_witness:
  "\<not> recognized ''HTTP/1.1 200 OK'' \<and>
   run_step idle_responder (''HTTP/1.1 200 OK'', requester) () empty_state = (Inr (), empty_state) \<and>
   well_formed example_notify \<and>
   run_step idle_responder (example_notify, requester) () empty_state = (Inr (), empty_state) \<and>
   recognized malformed_search \<and> \<not> well_formed malformed_search \<and>
   run_step idle_responder (malformed_search, requester) () empty_state = (Inl ValueError, empty_state)"
proof -
  have a: "\<not> recognized ''HTTP/1.1 200 OK''" by code_simp
  have b: "well_formed example_notify" by code_simp
  have c: "recognized malformed_search \<and> \<not> well_formed malformed_search" by code_simp
  have "parse_request (example_notify, requester) =
      Inr (Some \<lparr>METHOD = ''NOTIFY'', PATH = ''*'', VERSION = ''HTTP/1.1'',
                 HEADERS = [(''NTS'', [''ssdp:alive''])], REMOTE = requester\<rparr>)"
    by code_simp
  then have m: "\<And>request. parse_request (example_notify, requester) = Inr (Some request) \<Longrightarrow>
      METHOD request \<noteq> ''M-SEARCH''"
    by auto
  from dispatch_of_datagram [of "''HTTP/1.1 200 OK''" idle_responder requester empty_state] a
  have 1: "run_step idle_responder (''HTTP/1.1 200 OK'', requester) () empty_state = (Inr (), empty_state)"
    by blast
  from dispatch_of_datagram [of example_notify idle_responder requester empty_state] b m
  have 2: "run_step idle_responder (example_notify, requester) () empty_state = (Inr (), empty_state)"
    by blast
  from dispatch_of_datagram [of malformed_search idle_responder requester empty_state] c
  have 3: "run_step idle_responder (malformed_search, requester) () empty_state = (Inl ValueError, empty_state)"
    by blast
  from a b c 1 2 3 show ?thesis by blast
qed

text \<open>
  Claim C10. When the responder has no services (\<open>None\<close>), \<open>respond_ok\<close> returns
  normally and leaves the state as it was: nothing is sent and nothing is logged.
\<close>

theorem respond_ok_without_services:
  "respond_ok (r\<lparr>services_opt := None\<rparr>) request st = (Inr (), st)"
  by (simp add: respond_ok_def)

section \<open>Dictionaries\<close>

lemma map_of_setitem: "map_of (setitem d k v) = (map_of d)(k \<mapsto> v)"
  by (simp add: setitem_def update_conv')

lemma keys_setitem:
  "keys (setitem d k v) = (if k \<in> set (keys d) then keys d else keys d @ [k])"
  by (simp add: setitem_def keys_def update_keys)

lemma distinct_setitem: "distinct (keys d) \<Longrightarrow> distinct (keys (setitem d k v))"
  by (simp add: keys_setitem)

lemma setitem_hit:
  "k \<notin> set (keys done) \<Longrightarrow> setitem (done @ (k, v) # rest) k v' = done @ (k, v') # rest"
  by (induction "done") (auto simp: setitem_def keys_def)

lemma map_of_hit:
  "k \<notin> set (keys done) \<Longrightarrow> map_of (done @ (k, v) # rest) k = Some v"
  by (induction "done") (auto simp: keys_def)

lemma map_of_nth:
  "distinct (keys d) \<Longrightarrow> i < length d \<Longrightarrow> map_of d (fst (d ! i)) = Some (snd (d ! i))"
  by (simp add: keys_def)

lemma map_of_index:
  "map_of d k = Some v \<Longrightarrow> \<exists>i<length d. d ! i = (k, v)"
  by (metis in_set_conv_nth map_of_SomeD)

section \<open>The substitution pass\<close>

lemma resolve_keys_split:
  assumes "distinct (keys (done @ todo))"
    and "resolve_keys (keys todo) (done @ todo) = Inr result"
  shows "\<exists>todo'. result = done @ todo' \<and> keys todo' = keys todo \<and>
           (\<forall>i<length todo.
              substitute (done @ take i todo' @ drop i todo) (snd (todo ! i)) = Inr (snd (todo' ! i)))"
  using assms
proof (induction todo arbitrary: "done")
  case Nil
  then show ?case by (simp add: keys_def)
next
  case (Cons kv todo)
  obtain k v where kv: "kv = (k, v)" by (cases kv)
  from Cons.prems(1) have fresh: "k \<notin> set (keys done)"
    by (auto simp: kv keys_def)
  have look: "getitem (done @ kv # todo) k = Inr v"
    by (simp only: getitem_def kv map_of_hit [OF fresh] option.case)
  define v' where "v' = (case substitute (done @ kv # todo) v of Inr x \<Rightarrow> x | Inl e \<Rightarrow> v)"
  have step: "substitute (done @ kv # todo) v = Inr v' \<and>
      resolve_keys (keys todo) ((done @ [(k, v')]) @ todo) = Inr result"
  proof (cases v)
    case (Str s)
    with Cons.prems(2) look obtain s' where s': "format_str s (done @ kv # todo) = Inr s'"
      by (auto simp: kv keys_def split: sum.splits)
    with Str have "v' = Str s'" by (simp add: v'_def substitute_def)
    with Cons.prems(2) look Str s' fresh show ?thesis
      by (simp add: kv keys_def substitute_def setitem_hit)
  next
    case (Bytes b)
    then have "v' = v" by (simp add: v'_def substitute_def)
    with Cons.prems(2) look Bytes show ?thesis
      by (simp add: kv keys_def substitute_def)
  next
    case (Num n)
    then have "v' = v" by (simp add: v'_def substitute_def)
    with Cons.prems(2) look Num show ?thesis
      by (simp add: kv keys_def substitute_def)
  qed
  have dist: "distinct (keys ((done @ [(k, v')]) @ todo))"
    using Cons.prems(1) by (simp add: kv keys_def)
  from Cons.IH [OF dist] step
  obtain todo' where res: "result = (done @ [(k, v')]) @ todo'"
    and ks: "keys todo' = keys todo"
    and sub: "\<And>i. i < length todo \<Longrightarrow>
         substitute ((done @ [(k, v')]) @ take i todo' @ drop i todo) (snd (todo ! i)) =
           Inr (snd (todo' ! i))"
    by blast
  have "\<forall>i<length (kv # todo).
      substitute (done @ take i ((k, v') # todo') @ drop i (kv # todo)) (snd ((kv # todo) ! i)) =
        Inr (snd (((k, v') # todo') ! i))"
  proof (intro allI impI)
    fix i assume i: "i < length (kv # todo)"
    show "substitute (done @ take i ((k, v') # todo') @ drop i (kv # todo)) (snd ((kv # todo) ! i)) =
        Inr (snd (((k, v') # todo') ! i))"
    proof (cases i)
      case 0
      with step show ?thesis by (simp add: kv)
    next
      case (Suc j)
      with i sub [of j] show ?thesis by simp
    qed
  qed
  moreover have "result = done @ (k, v') # todo'" using res by simp
  moreover have "keys ((k, v') # todo') = keys (kv # todo)" using ks by (simp add: kv keys_def)
  ultimately show ?case by blast
qed

lemma keys_length: "keys a = keys b \<Longrightarrow> length a = length b"
  by (metis keys_def length_map)

lemma eval_params_distinct:
  "for_loop eval_param ps fmt st = (Inr fmt0, st') \<Longrightarrow> distinct (keys fmt) \<Longrightarrow> distinct (keys fmt0)"
proof (induction ps arbitrary: fmt st)
  case Nil
  then show ?case by simp
next
  case (Cons kp ps)
  obtain k p where kp: "kp = (k, p)" by (cases kp)
  from Cons.prems(1) obtain fmt1 st1 where
    one: "eval_param kp fmt st = (Inr fmt1, st1)" and
    rest: "for_loop eval_param ps fmt1 st1 = (Inr fmt0, st')"
    by (auto split: prod.splits sum.splits)
  from one have "\<exists>v. fmt1 = setitem fmt k v"
    by (auto simp: eval_param_def kp split: param.splits prod.splits sum.splits)
  with Cons.prems(2) have "distinct (keys fmt1)" by (auto simp: distinct_setitem)
  from Cons.IH [OF rest this] show ?case .
qed

lemma overlay_distinct: "distinct (keys fmt) \<Longrightarrow> distinct (keys (overlay service fmt))"
  unfolding overlay_def
  by (induction service arbitrary: fmt) (simp_all add: distinct_setitem)

lemma create_fmt_cases:
  assumes "create_fmt ps service st = (Inr fmt, st')"
  obtains fmt0 where "for_loop eval_param ps [] st = (Inr fmt0, st')"
    and "resolve_keys (keys (overlay service fmt0)) (overlay service fmt0) = Inr fmt"
  using assms by (auto simp: create_fmt_def Let_def split: prod.splits sum.splits)

lemma create_fmt_single_pass:
  assumes "create_fmt ps service st = (Inr fmt, st')"
  shows "\<exists>fmt0. for_loop eval_param ps [] st = (Inr fmt0, st') \<and>
           distinct (keys (overlay service fmt0)) \<and>
           keys fmt = keys (overlay service fmt0) \<and>
           (\<forall>i<length (overlay service fmt0).
              substitute (take i fmt @ drop i (overlay service fmt0))
                (snd (overlay service fmt0 ! i)) = Inr (snd (fmt ! i)))"
proof -
  from assms obtain fmt0 where ev: "for_loop eval_param ps [] st = (Inr fmt0, st')"
    and res: "resolve_keys (keys (overlay service fmt0)) (overlay service fmt0) = Inr fmt"
    by (rule create_fmt_cases)
  have "distinct (keys fmt0)" using eval_params_distinct [OF ev] by (simp add: keys_def)
  then have dist: "distinct (keys (overlay service fmt0))" by (rule overlay_distinct)
  from resolve_keys_split [of "[]" "overlay service fmt0" fmt] dist res
  show ?thesis using ev by auto
qed


lemma keys_take_drop:
  "keys a = keys b \<Longrightarrow> keys (take i a @ drop i b) = keys b"
  by (simp add: keys_def flip: take_map drop_map)

lemma nth_take_drop:
  "length a = length b \<Longrightarrow> j < length b \<Longrightarrow>
   (take i a @ drop i b) ! j = (if j < i then a else b) ! j"
  by (auto simp: nth_append min_def)

lemma fst_nth_keys: "keys a = keys b \<Longrightarrow> j < length b \<Longrightarrow> fst (a ! j) = fst (b ! j)"
  by (metis keys_def keys_length nth_map)

section \<open>Placeholders\<close>

lemma format_field:
  "list_all (\<lambda>c. c \<notin> set ''{}!:.['') name \<Longrightarrow>
   format_from fmt (Some acc) (name @ CHR ''}'' # rest) =
     (case field_value fmt (acc @ name) of
        Inl e \<Rightarrow> Inl e
      | Inr v \<Rightarrow> emit v (format_from fmt None rest))"
  by (induction name arbitrary: acc) auto

lemma format_placeholder:
  assumes "plain_name name"
  shows "format_str (''{'' @ name @ ''}'') fmt = field_value fmt name"
proof -
  from assms obtain c cs where name: "name = c # cs" and c: "c \<noteq> CHR ''{''"
    by (cases name) (auto simp: plain_name_def is_index_def)
  from assms have "list_all (\<lambda>c. c \<notin> set ''{}!:.['') name" by (simp add: plain_name_def)
  from format_field [OF this, of fmt "[]" "[]"] name c show ?thesis
    by (cases "cs @ ''}''") (auto simp: format_str_def emit_def split: sum.splits)
qed

lemma format_no_braces:
  "CHR ''{'' \<notin> set s \<Longrightarrow> CHR ''}'' \<notin> set s \<Longrightarrow> format_str s fmt = Inr s"
  unfolding format_str_def
proof (induction s)
  case Nil
  then show ?case by simp
next
  case (Cons c cs)
  then show ?case by (cases cs) (auto simp: emit_def)
qed

lemma substitute_literal:
  "(\<forall>s. v = Str s \<longrightarrow> CHR ''{'' \<notin> set s \<and> CHR ''}'' \<notin> set s) \<Longrightarrow> substitute src v = Inr v"
  by (cases v) (simp_all add: substitute_def format_no_braces)

text \<open>
  Claim C2. \<open>create_fmt\<close> evaluates the params, overlays the service and then makes one
  substitution pass over the merged mapping in its insertion order. The entry at
  position \<open>i\<close> is substituted against the mapping whose entries before \<open>i\<close> already
  have their final values and whose entries from \<open>i\<close> on still have their merged ones.
  So an entry that is the placeholder of a later entry receives that entry's merged,
  unresolved value, and the placeholder of an earlier entry receives its final value;
  the result is not substituted again.
\<close>

theorem single_pass_resolution:
  assumes "create_fmt ps service st = (Inr fmt, st')"
  shows "\<exists>fmt0. for_loop eval_param ps [] st = (Inr fmt0, st') \<and>
     (let merged = overlay service fmt0 in
        keys fmt = keys merged \<and>
        (\<forall>i<length merged.
           substitute (take i fmt @ drop i merged) (snd (merged ! i)) = Inr (snd (fmt ! i))) \<and>
        (\<forall>i<length merged. \<forall>j<length merged.
           plain_name (fst (merged ! j)) \<and>
           snd (merged ! i) = Str (''{'' @ fst (merged ! j) @ ''}'') \<longrightarrow>
           (\<exists>s. snd (fmt ! i) = Str s \<and>
                format_value (snd ((if j < i then fmt else merged) ! j)) = Inr s)))"
proof -
  from create_fmt_single_pass [OF assms]
  obtain fmt0 where ev: "for_loop eval_param ps [] st = (Inr fmt0, st')"
    and dist: "distinct (keys (overlay service fmt0))"
    and ks: "keys fmt = keys (overlay service fmt0)"
    and sub: "\<forall>i<length (overlay service fmt0).
              substitute (take i fmt @ drop i (overlay service fmt0))
                (snd (overlay service fmt0 ! i)) = Inr (snd (fmt ! i))"
    by blast
  let ?m = "overlay service fmt0"
  have len: "length fmt = length ?m" using ks by (rule keys_length)
  have ph: "\<forall>i<length ?m. \<forall>j<length ?m.
           plain_name (fst (?m ! j)) \<and>
           snd (?m ! i) = Str (''{'' @ fst (?m ! j) @ ''}'') \<longrightarrow>
           (\<exists>s. snd (fmt ! i) = Str s \<and>
                format_value (snd ((if j < i then fmt else ?m) ! j)) = Inr s)"
  proof (intro allI impI)
    fix i j
    assume i: "i < length ?m" and j: "j < length ?m"
      and h: "plain_name (fst (?m ! j)) \<and> snd (?m ! i) = Str (''{'' @ fst (?m ! j) @ ''}'')"
    let ?src = "take i fmt @ drop i ?m"
    let ?v = "snd ((if j < i then fmt else ?m) ! j)"
    from h have pl: "plain_name (fst (?m ! j))" ..
    have ksrc: "keys ?src = keys ?m" using ks by (rule keys_take_drop)
    have dsrc: "distinct (keys ?src)" using dist by (simp only: ksrc)
    have lsrc: "length ?src = length ?m" using ksrc by (rule keys_length)
    have jsrc: "j < length ?src" using j by (simp only: lsrc)
    have fj: "fst (?src ! j) = fst (?m ! j)" using ksrc j by (rule fst_nth_keys)
    have nj: "?src ! j = (if j < i then fmt else ?m) ! j" using len j by (rule nth_take_drop)
    from map_of_nth [OF dsrc jsrc]
    have "map_of ?src (fst (?m ! j)) = Some (snd (?src ! j))" by (simp only: fj)
    then have look: "map_of ?src (fst (?m ! j)) = Some ?v" by (simp only: nj)
    from pl have "\<not> is_index (fst (?m ! j))" by (simp add: plain_name_def)
    then have "field_value ?src (fst (?m ! j)) = format_value ?v"
      by (simp only: field_value_def look if_False option.case)
    then have fs: "format_str (''{'' @ fst (?m ! j) @ ''}'') ?src = format_value ?v"
      by (simp only: format_placeholder [OF pl])
    from sub i have "substitute ?src (snd (?m ! i)) = Inr (snd (fmt ! i))" by blast
    with h have "substitute ?src (Str (''{'' @ fst (?m ! j) @ ''}'')) = Inr (snd (fmt ! i))"
      by (simp only:)
    then have "(case format_value ?v of Inl e \<Rightarrow> Inl e | Inr s' \<Rightarrow> Inr (Str s')) =
        Inr (snd (fmt ! i))"
      by (simp only: substitute_def pyval.case fs)
    then show "\<exists>s. snd (fmt ! i) = Str s \<and> format_value ?v = Inr s"
      by (cases "format_value ?v") simp_all
  qed
  from ev ks sub ph
  have "for_loop eval_param ps [] st = (Inr fmt0, st') \<and>
     (let merged = overlay service fmt0 in
        keys fmt = keys merged \<and>
        (\<forall>i<length merged.
           substitute (take i fmt @ drop i merged) (snd (merged ! i)) = Inr (snd (fmt ! i))) \<and>
        (\<forall>i<length merged. \<forall>j<length merged.
           plain_name (fst (merged ! j)) \<and>
           snd (merged ! i) = Str (''{'' @ fst (merged ! j) @ ''}'') \<longrightarrow>
           (\<exists>s. snd (fmt ! i) = Str s \<and>
                format_value (snd ((if j < i then fmt else merged) ! j)) = Inr s)))"
    unfolding Let_def by (intro conjI)
  then show ?thesis by (rule exI [of _ fmt0])
qed

lemma chain_render: "create_fmt [] chain_service empty_state = (Inr chain_resolved, empty_state)"
  by code_simp

theorem single_pass_resolution_witness:
  "create_fmt [] chain_service empty_state = (Inr chain_resolved, empty_state) \<and>
   (\<exists>fmt0. for_loop eval_param [] [] empty_state = (Inr fmt0, empty_state) \<and>
     (let merged = overlay chain_service fmt0 in
        keys chain_resolved = keys merged \<and>
        (\<forall>i<length merged.
           substitute (take i chain_resolved @ drop i merged) (snd (merged ! i)) =
             Inr (snd (chain_resolved ! i))) \<and>
        (\<forall>i<length merged. \<forall>j<length merged.
           plain_name (fst (merged ! j)) \<and>
           snd (merged ! i) = Str (''{'' @ fst (merged ! j) @ ''}'') \<longrightarrow>
           (\<exists>s. snd (chain_resolved ! i) = Str s \<and>
                format_value (snd ((if j < i then chain_resolved else merged) ! j)) = Inr s))))"
  using single_pass_resolution [OF chain_render] chain_render by (rule conjI [rotated])

section \<open>Overlay and evaluation of params\<close>

lemma overlay_miss:
  "k \<notin> set (keys service) \<Longrightarrow> map_of (overlay service fmt) k = map_of fmt k"
  unfolding overlay_def
  by (induction service arbitrary: fmt) (auto simp: keys_def map_of_setitem)

lemma overlay_hit:
  "distinct (keys service) \<Longrightarrow> map_of service k = Some v \<Longrightarrow>
   map_of (overlay service fmt) k = Some v"
proof (induction service arbitrary: fmt)
  case Nil
  then show ?case by simp
next
  case (Cons kv service)
  obtain a b where kv: "kv = (a, b)" by (cases kv)
  have unfold: "overlay (kv # service) fmt = overlay service (setitem fmt a b)"
    by (simp add: overlay_def kv)
  show ?case
  proof (cases "k = a")
    case True
    with Cons.prems have "v = b" and "k \<notin> set (keys service)"
      by (auto simp: kv keys_def)
    then show ?thesis using True by (simp add: unfold overlay_miss map_of_setitem)
  next
    case False
    with Cons.prems have "distinct (keys service)" and "map_of service k = Some v"
      by (auto simp: kv keys_def)
    then show ?thesis unfolding unfold by (rule Cons.IH)
  qed
qed

lemma eval_param_Inr:
  assumes "eval_param (k, p) fmt st = (Inr fmt1, st1)"
  shows "(\<exists>v. p = Literal v \<and> fmt1 = setitem fmt k v \<and> st1 = st) \<or>
         (\<exists>f v w. p = Computed f \<and> f (world st) = (Inr v, w) \<and> fmt1 = setitem fmt k v \<and>
            st1 = emit_event (Called k) (st\<lparr>world := w\<rparr>))"
  using assms by (cases p) (auto simp: eval_param_def split: prod.splits sum.splits)

lemma for_loop_Cons_Inr:
  assumes "for_loop body (x # xs) acc st = (Inr acc', st')"
  obtains acc1 st1 where "body x acc st = (Inr acc1, st1)"
    and "for_loop body xs acc1 st1 = (Inr acc', st')"
  using assms by (auto split: prod.splits sum.splits)

lemma eval_params_miss:
  "for_loop eval_param ps fmt st = (Inr fmt0, st') \<Longrightarrow> k \<notin> set (keys ps) \<Longrightarrow>
   map_of fmt0 k = map_of fmt k"
proof (induction ps arbitrary: fmt st)
  case Nil
  then show ?case by simp
next
  case (Cons kp ps)
  obtain a p where kp: "kp = (a, p)" by (cases kp)
  from Cons.prems(1) obtain fmt1 st1 where
    one: "eval_param (a, p) fmt st = (Inr fmt1, st1)" and
    rest: "for_loop eval_param ps fmt1 st1 = (Inr fmt0, st')"
    unfolding kp by (rule for_loop_Cons_Inr)
  from Cons.prems(2) have ne: "k \<noteq> a" and nin: "k \<notin> set (keys ps)"
    by (auto simp: kp keys_def)
  from eval_param_Inr [OF one] have "\<exists>v. fmt1 = setitem fmt a v" by blast
  with ne have "map_of fmt1 k = map_of fmt k" by (auto simp: map_of_setitem)
  with Cons.IH [OF rest nin] show ?case by simp
qed

lemma eval_params_literal:
  "for_loop eval_param ps fmt st = (Inr fmt0, st') \<Longrightarrow> distinct (keys ps) \<Longrightarrow>
   map_of ps k = Some (Literal v) \<Longrightarrow> map_of fmt0 k = Some v"
proof (induction ps arbitrary: fmt st)
  case Nil
  then show ?case by simp
next
  case (Cons kp ps)
  obtain a p where kp: "kp = (a, p)" by (cases kp)
  from Cons.prems(1) obtain fmt1 st1 where
    one: "eval_param (a, p) fmt st = (Inr fmt1, st1)" and
    rest: "for_loop eval_param ps fmt1 st1 = (Inr fmt0, st')"
    unfolding kp by (rule for_loop_Cons_Inr)
  from Cons.prems(2) have dist: "distinct (keys ps)" and fresh: "a \<notin> set (keys ps)"
    by (auto simp: kp keys_def)
  show ?case
  proof (cases "k = a")
    case True
    with Cons.prems(3) have "p = Literal v" by (simp add: kp)
    with eval_param_Inr [OF one] have "fmt1 = setitem fmt a v" by auto
    moreover from eval_params_miss [OF rest fresh] have "map_of fmt0 a = map_of fmt1 a" .
    ultimately show ?thesis using True by (simp add: map_of_setitem)
  next
    case False
    with Cons.prems(3) have "map_of ps k = Some (Literal v)" by (simp add: kp)
    from Cons.IH [OF rest dist this] show ?thesis .
  qed
qed

lemma create_fmt_lookup:
  assumes "create_fmt ps service st = (Inr fmt, st')"
  shows "\<exists>fmt0. for_loop eval_param ps [] st = (Inr fmt0, st') \<and>
           (\<forall>k v. map_of (overlay service fmt0) k = Some v \<longrightarrow>
              (\<exists>src v'. map_of src k = Some v \<and> substitute src v = Inr v' \<and>
                 map_of fmt k = Some v'))"
proof -
  from create_fmt_single_pass [OF assms]
  obtain fmt0 where ev: "for_loop eval_param ps [] st = (Inr fmt0, st')"
    and dist: "distinct (keys (overlay service fmt0))"
    and ks: "keys fmt = keys (overlay service fmt0)"
    and sub: "\<forall>i<length (overlay service fmt0).
              substitute (take i fmt @ drop i (overlay service fmt0))
                (snd (overlay service fmt0 ! i)) = Inr (snd (fmt ! i))"
    by blast
  let ?m = "overlay service fmt0"
  have len: "length fmt = length ?m" using ks by (rule keys_length)
  have "\<exists>src v'. map_of src k = Some v \<and> substitute src v = Inr v' \<and> map_of fmt k = Some v'"
    if look: "map_of ?m k = Some v" for k v
  proof -
    from map_of_index [OF look] obtain i where i: "i < length ?m" and mi: "?m ! i = (k, v)"
      by blast
    let ?src = "take i fmt @ drop i ?m"
    have ksrc: "keys ?src = keys ?m" using ks by (rule keys_take_drop)
    have dsrc: "distinct (keys ?src)" using dist by (simp only: ksrc)
    have isrc: "i < length ?src" using i keys_length [OF ksrc] by simp
    have "?src ! i = (if i < i then fmt else ?m) ! i" using len i by (rule nth_take_drop)
    then have si: "?src ! i = (k, v)" using mi by simp
    from map_of_nth [OF dsrc isrc] have 1: "map_of ?src k = Some v" by (simp add: si)
    from sub i mi have 2: "substitute ?src v = Inr (snd (fmt ! i))" by fastforce
    have "fst (fmt ! i) = fst (?m ! i)" using ks i by (rule fst_nth_keys)
    then have fk: "fst (fmt ! i) = k" by (simp add: mi)
    have dfmt: "distinct (keys fmt)" using dist by (simp only: ks)
    have ifmt: "i < length fmt" using i len by simp
    from map_of_nth [OF dfmt ifmt] have 3: "map_of fmt k = Some (snd (fmt ! i))"
      by (simp add: fk)
    from 1 2 3 show ?thesis by blast
  qed
  with ev show ?thesis by blast
qed

lemma override_render:
  "create_fmt override_params override_service empty_state = (Inr override_resolved, empty_state)"
  by code_simp

text \<open>
  Claim C8, as stated, fails: the service's \<open>st\<close> is \<open>urn:{ip}\<close> and overrides the
  param \<open>st\<close>, but the value of \<open>st\<close> in the mapping that \<open>create_fmt\<close> returns is the
  substituted \<open>urn:10.0.0.2\<close>, not the service's value.
\<close>

theorem service_value_is_substituted:
  "fst (create_fmt override_params override_service empty_state) = Inr override_resolved \<and>
   map_of override_params ''st'' = Some (Literal (Str ''urn:generic'')) \<and>
   map_of override_service ''st'' = Some (Str ''urn:{ip}'') \<and>
   map_of override_resolved ''st'' = Some (Str ''urn:10.0.0.2'') \<and>
   map_of override_resolved ''st'' \<noteq> map_of override_service ''st''"
  by (simp add: override_render) code_simp

lemma setitem_commute:
  "k \<in> set (keys d) \<Longrightarrow> a \<noteq> k \<Longrightarrow>
   setitem (setitem d k x) a b = setitem (setitem d a b) k x"
  by (induction d) (auto simp: setitem_def keys_def)

lemma setitem_twice: "setitem (setitem d k x) k b = setitem d k b"
  by (simp add: setitem_def)

lemma keys_setitem_mem: "k \<in> set (keys d) \<Longrightarrow> k \<in> set (keys (setitem d a b))"
  by (simp add: keys_setitem)

lemma overlay_Cons: "overlay ((a, b) # service) d = overlay service (setitem d a b)"
  by (simp add: overlay_def)

lemma overlay_forgets_param:
  "k \<in> set (keys service) \<Longrightarrow> k \<in> set (keys d) \<Longrightarrow>
   overlay service (setitem d k x) = overlay service d"
proof (induction service arbitrary: d)
  case Nil
  then show ?case by (simp add: keys_def)
next
  case (Cons ab service)
  obtain a b where ab: "ab = (a, b)" by (cases ab)
  show ?case
  proof (cases "a = k")
    case True
    then show ?thesis by (simp add: ab overlay_Cons setitem_twice)
  next
    case False
    with Cons.prems(1) have ks: "k \<in> set (keys service)" by (auto simp: ab keys_def)
    from Cons.prems(2) have kd: "k \<in> set (keys (setitem d a b))" by (rule keys_setitem_mem)
    from setitem_commute [OF Cons.prems(2) False]
    have "overlay (ab # service) (setitem d k x) = overlay service (setitem (setitem d a b) k x)"
      by (simp add: ab overlay_Cons)
    also from Cons.IH [OF ks kd] have "\<dots> = overlay service (setitem d a b)" .
    finally show ?thesis by (simp add: ab overlay_Cons)
  qed
qed

lemma pass_entry:
  assumes dist: "distinct (keys merged)" and ks: "keys fmt = keys merged"
    and sub: "\<forall>i<length merged.
                substitute (take i fmt @ drop i merged) (snd (merged ! i)) = Inr (snd (fmt ! i))"
    and look: "map_of merged k = Some v"
  shows "\<exists>i<length merged. merged ! i = (k, v) \<and> fst (fmt ! i) = k \<and>
           map_of fmt k = Some (snd (fmt ! i)) \<and>
           substitute (take i fmt @ drop i merged) v = Inr (snd (fmt ! i))"
proof -
  from map_of_index [OF look] obtain i where i: "i < length merged" and mi: "merged ! i = (k, v)"
    by blast
  have len: "length fmt = length merged" using ks by (rule keys_length)
  from sub i have "substitute (take i fmt @ drop i merged) (snd (merged ! i)) = Inr (snd (fmt ! i))"
    by blast
  then have 2: "substitute (take i fmt @ drop i merged) v = Inr (snd (fmt ! i))"
    by (simp add: mi)
  have "fst (fmt ! i) = fst (merged ! i)" using ks i by (rule fst_nth_keys)
  then have fk: "fst (fmt ! i) = k" by (simp add: mi)
  have dfmt: "distinct (keys fmt)" using dist by (simp only: ks)
  have ifmt: "i < length fmt" using i len by simp
  from map_of_nth [OF dfmt ifmt] have 3: "map_of fmt k = Some (snd (fmt ! i))"
    by (simp add: fk)
  from i mi fk 2 3 show ?thesis by blast
qed

text \<open>
  Claim C8, amended. With \<open>fmt0\<close> the evaluated params and \<open>merged\<close> their overlay by
  the service, the result of \<open>create_fmt\<close> is the substitution pass over \<open>merged\<close>. For
  every key \<open>k\<close> of the service, \<open>merged\<close> holds the service's value at the position of
  \<open>k\<close>, whatever value the params had left under \<open>k\<close>; the final value of \<open>k\<close> is the
  single substitution of the service's value against the mapping as the pass found it
  at that position, and is the service's value itself when that is not a \<open>str\<close> or has
  no brace. A key that the service does not have goes through the pass with the value
  the params evaluated to, so an override holds only in the render of the service that
  carries it.
\<close>

theorem service_overrides_param:
  assumes "create_fmt ps service st = (Inr fmt, st')" and "distinct (keys service)"
  shows "\<exists>fmt0. for_loop eval_param ps [] st = (Inr fmt0, st') \<and>
     (let merged = overlay service fmt0 in
        resolve_keys (keys merged) merged = Inr fmt \<and>
        (\<forall>k v. map_of service k = Some v \<longrightarrow>
           (\<exists>i<length merged. merged ! i = (k, v) \<and> fst (fmt ! i) = k \<and>
              map_of fmt k = Some (snd (fmt ! i)) \<and>
              substitute (take i fmt @ drop i merged) v = Inr (snd (fmt ! i))) \<and>
           (\<forall>x. k \<in> set (keys fmt0) \<longrightarrow> overlay service (setitem fmt0 k x) = merged) \<and>
           ((\<forall>s. v = Str s \<longrightarrow> CHR ''{'' \<notin> set s \<and> CHR ''}'' \<notin> set s) \<longrightarrow>
              map_of fmt k = Some v)) \<and>
        (\<forall>k pv. k \<notin> set (keys service) \<and> map_of fmt0 k = Some pv \<longrightarrow>
           (\<exists>j<length merged. merged ! j = (k, pv) \<and> fst (fmt ! j) = k \<and>
              map_of fmt k = Some (snd (fmt ! j)) \<and>
              substitute (take j fmt @ drop j merged) pv = Inr (snd (fmt ! j)))) \<and>
        (distinct (keys ps) \<longrightarrow>
           (\<forall>k pv. map_of ps k = Some (Literal pv) \<longrightarrow> map_of fmt0 k = Some pv)))"
proof -
  from create_fmt_single_pass [OF assms(1)]
  obtain fmt0 where ev: "for_loop eval_param ps [] st = (Inr fmt0, st')"
    and dist: "distinct (keys (overlay service fmt0))"
    and ks: "keys fmt = keys (overlay service fmt0)"
    and sub: "\<forall>i<length (overlay service fmt0).
              substitute (take i fmt @ drop i (overlay service fmt0))
                (snd (overlay service fmt0 ! i)) = Inr (snd (fmt ! i))"
    by blast
  let ?m = "overlay service fmt0"
  from assms(1) obtain fmt0' where "for_loop eval_param ps [] st = (Inr fmt0', st')"
    and "resolve_keys (keys (overlay service fmt0')) (overlay service fmt0') = Inr fmt"
    by (rule create_fmt_cases)
  with ev have res: "resolve_keys (keys ?m) ?m = Inr fmt" by simp
  have a: "\<forall>k v. map_of service k = Some v \<longrightarrow>
           (\<exists>i<length ?m. ?m ! i = (k, v) \<and> fst (fmt ! i) = k \<and>
              map_of fmt k = Some (snd (fmt ! i)) \<and>
              substitute (take i fmt @ drop i ?m) v = Inr (snd (fmt ! i))) \<and>
           (\<forall>x. k \<in> set (keys fmt0) \<longrightarrow> overlay service (setitem fmt0 k x) = ?m) \<and>
           ((\<forall>s. v = Str s \<longrightarrow> CHR ''{'' \<notin> set s \<and> CHR ''}'' \<notin> set s) \<longrightarrow>
              map_of fmt k = Some v)"
  proof (intro allI impI)
    fix k v assume sv: "map_of service k = Some v"
    from overlay_hit [OF assms(2) sv] have look: "map_of ?m k = Some v" .
    from pass_entry [OF dist ks sub look]
    have 1: "\<exists>i<length ?m. ?m ! i = (k, v) \<and> fst (fmt ! i) = k \<and>
              map_of fmt k = Some (snd (fmt ! i)) \<and>
              substitute (take i fmt @ drop i ?m) v = Inr (snd (fmt ! i))" .
    from sv have "k \<in> set (keys service)" by (metis keys_def domI dom_map_of_conv_image_fst set_map)
    then have 2: "\<forall>x. k \<in> set (keys fmt0) \<longrightarrow> overlay service (setitem fmt0 k x) = ?m"
      by (simp add: overlay_forgets_param)
    have 3: "map_of fmt k = Some v"
      if lit: "\<forall>s. v = Str s \<longrightarrow> CHR ''{'' \<notin> set s \<and> CHR ''}'' \<notin> set s"
    proof -
      from 1 obtain i where "map_of fmt k = Some (snd (fmt ! i))"
        and "substitute (take i fmt @ drop i ?m) v = Inr (snd (fmt ! i))" by blast
      with substitute_literal [OF lit, of "take i fmt @ drop i ?m"] show ?thesis by simp
    qed
    from 1 2 3 show "(\<exists>i<length ?m. ?m ! i = (k, v) \<and> fst (fmt ! i) = k \<and>
              map_of fmt k = Some (snd (fmt ! i)) \<and>
              substitute (take i fmt @ drop i ?m) v = Inr (snd (fmt ! i))) \<and>
           (\<forall>x. k \<in> set (keys fmt0) \<longrightarrow> overlay service (setitem fmt0 k x) = ?m) \<and>
           ((\<forall>s. v = Str s \<longrightarrow> CHR ''{'' \<notin> set s \<and> CHR ''}'' \<notin> set s) \<longrightarrow>
              map_of fmt k = Some v)"
      by (intro conjI impI)
  qed
  have b: "\<forall>k pv. k \<notin> set (keys service) \<and> map_of fmt0 k = Some pv \<longrightarrow>
           (\<exists>j<length ?m. ?m ! j = (k, pv) \<and> fst (fmt ! j) = k \<and>
              map_of fmt k = Some (snd (fmt ! j)) \<and>
              substitute (take j fmt @ drop j ?m) pv = Inr (snd (fmt ! j)))"
  proof (intro allI impI)
    fix k pv assume h: "k \<notin> set (keys service) \<and> map_of fmt0 k = Some pv"
    then have "map_of ?m k = Some pv" by (simp add: overlay_miss)
    from pass_entry [OF dist ks sub this]
    show "\<exists>j<length ?m. ?m ! j = (k, pv) \<and> fst (fmt ! j) = k \<and>
              map_of fmt k = Some (snd (fmt ! j)) \<and>
              substitute (take j fmt @ drop j ?m) pv = Inr (snd (fmt ! j))" .
  qed
  have c: "distinct (keys ps) \<longrightarrow>
           (\<forall>k pv. map_of ps k = Some (Literal pv) \<longrightarrow> map_of fmt0 k = Some pv)"
    using eval_params_literal [OF ev] by blast
  from ev res a b c
  have "for_loop eval_param ps [] st = (Inr fmt0, st') \<and>
     (let merged = overlay service fmt0 in
        resolve_keys (keys merged) merged = Inr fmt \<and>
        (\<forall>k v. map_of service k = Some v \<longrightarrow>
           (\<exists>i<length merged. merged ! i = (k, v) \<and> fst (fmt ! i) = k \<and>
              map_of fmt k = Some (snd (fmt ! i)) \<and>
              substitute (take i fmt @ drop i merged) v = Inr (snd (fmt ! i))) \<and>
           (\<forall>x. k \<in> set (keys fmt0) \<longrightarrow> overlay service (setitem fmt0 k x) = merged) \<and>
           ((\<forall>s. v = Str s \<longrightarrow> CHR ''{'' \<notin> set s \<and> CHR ''}'' \<notin> set s) \<longrightarrow>
              map_of fmt k = Some v)) \<and>
        (\<forall>k pv. k \<notin> set (keys service) \<and> map_of fmt0 k = Some pv \<longrightarrow>
           (\<exists>j<length merged. merged ! j = (k, pv) \<and> fst (fmt ! j) = k \<and>
              map_of fmt k = Some (snd (fmt ! j)) \<and>
              substitute (take j fmt @ drop j merged) pv = Inr (snd (fmt ! j)))) \<and>
        (distinct (keys ps) \<longrightarrow>
           (\<forall>k pv. map_of ps k = Some (Literal pv) \<longrightarrow> map_of fmt0 k = Some pv)))"
    unfolding Let_def by (intro conjI)
  then show ?thesis by (rule exI [of _ fmt0])
qed

lemma override_evaluation:
  "for_loop eval_param override_params [] empty_state = (Inr override_evaluated, empty_state)"
  by code_simp

theorem service_overrides_param_witness:
  "create_fmt override_params override_service empty_state = (Inr override_resolved, empty_state) \<and>
   distinct (keys override_service) \<and>
   for_loop eval_param override_params [] empty_state = (Inr override_evaluated, empty_state) \<and>
   map_of override_service ''st'' = Some (Str ''urn:{ip}'') \<and>
   ''st'' \<in> set (keys override_evaluated) \<and>
   ''ip'' \<notin> set (keys override_service) \<and>
   map_of override_evaluated ''ip'' = Some (Str ''10.0.0.2'') \<and>
   distinct (keys override_params) \<and>
   map_of override_params ''ip'' = Some (Literal (Str ''10.0.0.2'')) \<and>
   (\<exists>fmt0. for_loop eval_param override_params [] empty_state = (Inr fmt0, empty_state) \<and>
     (let merged = overlay override_service fmt0 in
        resolve_keys (keys merged) merged = Inr override_resolved \<and>
        (\<forall>k v. map_of override_service k = Some v \<longrightarrow>
           (\<exists>i<length merged. merged ! i = (k, v) \<and> fst (override_resolved ! i) = k \<and>
              map_of override_resolved k = Some (snd (override_resolved ! i)) \<and>
              substitute (take i override_resolved @ drop i merged) v =
                Inr (snd (override_resolved ! i))) \<and>
           (\<forall>x. k \<in> set (keys fmt0) \<longrightarrow> overlay override_service (setitem fmt0 k x) = merged) \<and>
           ((\<forall>s. v = Str s \<longrightarrow> CHR ''{'' \<notin> set s \<and> CHR ''}'' \<notin> set s) \<longrightarrow>
              map_of override_resolved k = Some v)) \<and>
        (\<forall>k pv. k \<notin> set (keys override_service) \<and> map_of fmt0 k = Some pv \<longrightarrow>
           (\<exists>j<length merged. merged ! j = (k, pv) \<and> fst (override_resolved ! j) = k \<and>
              map_of override_resolved k = Some (snd (override_resolved ! j)) \<and>
              substitute (take j override_resolved @ drop j merged) pv =
                Inr (snd (override_resolved ! j)))) \<and>
        (distinct (keys override_params) \<longrightarrow>
           (\<forall>k pv. map_of override_params k = Some (Literal pv) \<longrightarrow> map_of fmt0 k = Some pv))))"
proof -
  have d1: "distinct (keys override_service)" by code_simp
  have d2: "distinct (keys override_params)" by code_simp
  have s: "map_of override_service ''st'' = Some (Str ''urn:{ip}'')" by code_simp
  have k: "''st'' \<in> set (keys override_evaluated)"
    by (simp add: override_evaluated_def keys_def)
  have i: "''ip'' \<notin> set (keys override_service)"
    by (simp add: override_service_def keys_def)
  have e: "map_of override_evaluated ''ip'' = Some (Str ''10.0.0.2'')"
    by (simp add: override_evaluated_def)
  have p: "map_of override_params ''ip'' = Some (Literal (Str ''10.0.0.2''))"
    by (simp add: override_params_def)
  from override_render d1 override_evaluation s k i e d2 p
    service_overrides_param [OF override_render d1]
  show ?thesis by (intro conjI)
qed

section \<open>Value producers\<close>

lemma computed_keys_Cons:
  "computed_keys ((k, p) # ps) =
     (case p of Computed f \<Rightarrow> [k] | Literal v \<Rightarrow> []) @ computed_keys ps"
  by (cases p) (simp_all add: computed_keys_def)

lemma eval_params_events:
  "for_loop eval_param ps fmt st = (Inr fmt0, st') \<Longrightarrow>
   events st' = events st @ map Called (computed_keys ps)"
proof (induction ps arbitrary: fmt st)
  case Nil
  then show ?case by (simp add: computed_keys_def)
next
  case (Cons kp ps)
  obtain a p where kp: "kp = (a, p)" by (cases kp)
  from Cons.prems obtain fmt1 st1 where
    one: "eval_param (a, p) fmt st = (Inr fmt1, st1)" and
    rest: "for_loop eval_param ps fmt1 st1 = (Inr fmt0, st')"
    unfolding kp by (rule for_loop_Cons_Inr)
  from eval_param_Inr [OF one]
  have "events st1 = events st @ map Called (case p of Computed f \<Rightarrow> [a] | Literal v \<Rightarrow> [])"
    by (auto simp: emit_event_def)
  with Cons.IH [OF rest] show ?case by (simp add: kp computed_keys_Cons)
qed

lemma computed_keys_subset: "set (computed_keys ps) \<subseteq> set (keys ps)"
  by (induction ps) (auto simp: computed_keys_def keys_def split: param.splits)

lemma computed_keys_count:
  "distinct (keys ps) \<Longrightarrow> map_of ps k = Some (Computed f) \<Longrightarrow>
   count_list (computed_keys ps) k = 1"
proof (induction ps)
  case Nil
  then show ?case by simp
next
  case (Cons kp ps)
  obtain a p where kp: "kp = (a, p)" by (cases kp)
  from Cons.prems(1) have dist: "distinct (keys ps)" and fresh: "a \<notin> set (keys ps)"
    by (auto simp: kp keys_def)
  show ?case
  proof (cases "k = a")
    case True
    with Cons.prems(2) have p: "p = Computed f" by (simp add: kp)
    from fresh computed_keys_subset have "a \<notin> set (computed_keys ps)" by blast
    then have "count_list (computed_keys ps) a = 0" by (simp add: count_list_0_iff)
    with True p show ?thesis by (simp add: kp computed_keys_Cons)
  next
    case False
    with Cons.prems(2) have "map_of ps k = Some (Computed f)" by (simp add: kp)
    from Cons.IH [OF dist this] False show ?thesis
      by (cases p) (simp_all add: kp computed_keys_Cons)
  qed
qed

lemma nondecreasing_Cons: "nondecreasing (kp # ps) \<Longrightarrow> nondecreasing ps"
  by (auto simp: nondecreasing_def)

lemma eval_param_world:
  assumes "eval_param (a, p) fmt (st :: int state) = (Inr fmt1, st1)"
    and "nondecreasing ((a, p) # ps)"
  shows "world st \<le> world st1"
proof -
  from eval_param_Inr [OF assms(1)] show ?thesis
  proof
    assume "\<exists>v. p = Literal v \<and> fmt1 = setitem fmt a v \<and> st1 = st"
    then show ?thesis by auto
  next
    assume "\<exists>f v w. p = Computed f \<and> f (world st) = (Inr v, w) \<and> fmt1 = setitem fmt a v \<and>
            st1 = emit_event (Called a) (st\<lparr>world := w\<rparr>)"
    then obtain f v w where p: "p = Computed f" and f: "f (world st) = (Inr v, w)"
      and st1: "st1 = emit_event (Called a) (st\<lparr>world := w\<rparr>)" by blast
    from assms(2) p have "world st \<le> snd (f (world st))" by (auto simp: nondecreasing_def)
    with f st1 show ?thesis by (simp add: emit_event_def)
  qed
qed

lemma eval_params_world:
  "for_loop eval_param ps fmt (st :: int state) = (Inr fmt0, st') \<Longrightarrow> nondecreasing ps \<Longrightarrow>
   world st \<le> world st'"
proof (induction ps arbitrary: fmt st)
  case Nil
  then show ?case by simp
next
  case (Cons kp ps)
  obtain a p where kp: "kp = (a, p)" by (cases kp)
  from Cons.prems(1) obtain fmt1 st1 where
    one: "eval_param (a, p) fmt st = (Inr fmt1, st1)" and
    rest: "for_loop eval_param ps fmt1 st1 = (Inr fmt0, st')"
    unfolding kp by (rule for_loop_Cons_Inr)
  from eval_param_world [OF one] Cons.prems(2) have "world st \<le> world st1" by (simp add: kp)
  moreover from Cons.IH [OF rest nondecreasing_Cons [OF Cons.prems(2)]]
  have "world st1 \<le> world st'" .
  ultimately show ?case by simp
qed

lemma eval_params_counter:
  "for_loop eval_param ps fmt (st :: int state) = (Inr fmt0, st') \<Longrightarrow> distinct (keys ps) \<Longrightarrow>
   nondecreasing ps \<Longrightarrow> map_of ps k = Some (Computed counter) \<Longrightarrow>
   \<exists>n. map_of fmt0 k = Some (Num n) \<and> world st \<le> n \<and> n < world st'"
proof (induction ps arbitrary: fmt st)
  case Nil
  then show ?case by simp
next
  case (Cons kp ps)
  obtain a p where kp: "kp = (a, p)" by (cases kp)
  from Cons.prems(1) obtain fmt1 st1 where
    one: "eval_param (a, p) fmt st = (Inr fmt1, st1)" and
    rest: "for_loop eval_param ps fmt1 st1 = (Inr fmt0, st')"
    unfolding kp by (rule for_loop_Cons_Inr)
  from Cons.prems(2) have dist: "distinct (keys ps)" and fresh: "a \<notin> set (keys ps)"
    by (auto simp: kp keys_def)
  from Cons.prems(3) have nd: "nondecreasing ps" by (rule nondecreasing_Cons)
  show ?case
  proof (cases "k = a")
    case True
    with Cons.prems(4) have p: "p = Computed counter" by (simp add: kp)
    with eval_param_Inr [OF one]
    have fmt1: "fmt1 = setitem fmt a (Num (world st))"
      and st1: "st1 = emit_event (Called a) (st\<lparr>world := world st + 1\<rparr>)"
      by (auto simp: counter_def)
    from eval_params_miss [OF rest fresh] fmt1
    have "map_of fmt0 a = Some (Num (world st))" by (simp add: map_of_setitem)
    moreover from eval_params_world [OF rest nd] st1
    have "world st < world st'" by (simp add: emit_event_def)
    ultimately show ?thesis using True by auto
  next
    case False
    with Cons.prems(4) have "map_of ps k = Some (Computed counter)" by (simp add: kp)
    from Cons.IH [OF rest dist nd this]
    obtain n where n: "map_of fmt0 k = Some (Num n)" "world st1 \<le> n" "n < world st'" by blast
    from eval_param_world [OF one] Cons.prems(3) have "world st \<le> world st1" by (simp add: kp)
    with n show ?thesis by auto
  qed
qed

lemma create_fmt_counter:
  assumes "create_fmt ps service (st :: int state) = (Inr fmt, st')"
    and "distinct (keys ps)" and "nondecreasing ps"
    and "map_of ps k = Some (Computed counter)" and "k \<notin> set (keys service)"
  shows "\<exists>n. map_of fmt k = Some (Num n) \<and> world st \<le> n \<and> n < world st'"
proof -
  from create_fmt_lookup [OF assms(1)]
  obtain fmt0 where ev: "for_loop eval_param ps [] st = (Inr fmt0, st')"
    and look: "\<And>k v. map_of (overlay service fmt0) k = Some v \<Longrightarrow>
              (\<exists>src v'. map_of src k = Some v \<and> substitute src v = Inr v' \<and>
                 map_of fmt k = Some v')"
    by blast
  from eval_params_counter [OF ev assms(2,3,4)]
  obtain n where n: "map_of fmt0 k = Some (Num n)" "world st \<le> n" "n < world st'" by blast
  with assms(5) have "map_of (overlay service fmt0) k = Some (Num n)" by (simp add: overlay_miss)
  from look [OF this] have "map_of fmt k = Some (Num n)" by (auto simp: substitute_def)
  with n show ?thesis by blast
qed

text \<open>
  Claim C9. A render that returns has invoked the producer of every callable param, in
  the params' order and nothing else, so each of them exactly once; the next render
  invokes them again from the world the first one left. With a counter as producer,
  under a key the service does not override, two consecutive renders hold different,
  increasing values.
\<close>

theorem producers_invoked_once_per_render:
  "(create_fmt ps service st = (Inr fmt, st') \<longrightarrow>
      events st' = events st @ map Called (computed_keys ps) \<and>
      (distinct (keys ps) \<longrightarrow>
         (\<forall>k f. map_of ps k = Some (Computed f) \<longrightarrow> count_list (computed_keys ps) k = 1))) \<and>
   (distinct (keys cps) \<and> nondecreasing cps \<and> map_of cps key = Some (Computed counter) \<and>
    key \<notin> set (keys svc) \<and>
    create_fmt cps svc s0 = (Inr fmt1, s1) \<and> create_fmt cps svc s1 = (Inr fmt2, s2) \<longrightarrow>
      (\<exists>n1 n2. map_of fmt1 key = Some (Num n1) \<and> map_of fmt2 key = Some (Num n2) \<and> n1 < n2))"
proof (intro conjI impI)
  assume c: "create_fmt ps service st = (Inr fmt, st')"
  then obtain fmt0 where "for_loop eval_param ps [] st = (Inr fmt0, st')"
    by (rule create_fmt_cases)
  then show "events st' = events st @ map Called (computed_keys ps)"
    by (rule eval_params_events)
next
  assume "distinct (keys ps)"
  then show "\<forall>k f. map_of ps k = Some (Computed f) \<longrightarrow> count_list (computed_keys ps) k = 1"
    using computed_keys_count by blast
next
  assume h: "distinct (keys cps) \<and> nondecreasing cps \<and> map_of cps key = Some (Computed counter) \<and>
    key \<notin> set (keys svc) \<and>
    create_fmt cps svc s0 = (Inr fmt1, s1) \<and> create_fmt cps svc s1 = (Inr fmt2, s2)"
  then have d: "distinct (keys cps)" and nd: "nondecreasing cps"
    and m: "map_of cps key = Some (Computed counter)" and k: "key \<notin> set (keys svc)"
    and r1: "create_fmt cps svc s0 = (Inr fmt1, s1)" and r2: "create_fmt cps svc s1 = (Inr fmt2, s2)"
    by simp_all
  from create_fmt_counter [OF r1 d nd m k]
  obtain n1 where n1: "map_of fmt1 key = Some (Num n1)" "n1 < world s1" by blast
  from create_fmt_counter [OF r2 d nd m k]
  obtain n2 where n2: "map_of fmt2 key = Some (Num n2)" "world s1 \<le> n2" by blast
  from n1 n2 have "n1 < n2" by simp
  with n1 n2 show "\<exists>n1 n2. map_of fmt1 key = Some (Num n1) \<and> map_of fmt2 key = Some (Num n2) \<and> n1 < n2"
    by blast
qed

lemma boot_render_1:
  "create_fmt boot_params boot_service (boot_state 7 []) =
     (Inr [(''ip'', Str ''10.0.0.2''), (''bootid'', Num 7), (''st'', Str ''urn:a:7'')],
      boot_state 8 [Called ''bootid''])"
  by code_simp

lemma boot_render_2:
  "create_fmt boot_params boot_service (boot_state 8 [Called ''bootid'']) =
     (Inr [(''ip'', Str ''10.0.0.2''), (''bootid'', Num 8), (''st'', Str ''urn:a:8'')],
      boot_state 9 [Called ''bootid'', Called ''bootid''])"
  by code_simp

lemma boot_params_facts:
  "distinct (keys boot_params) \<and> nondecreasing boot_params \<and>
   map_of boot_params ''bootid'' = Some (Computed counter) \<and>
   ''bootid'' \<notin> set (keys boot_service)"
  by (simp add: boot_params_def boot_service_def keys_def nondecreasing_def counter_def)

theorem producers_invoked_once_per_render_witness:
  "create_fmt boot_params boot_service (boot_state 7 []) =
     (Inr [(''ip'', Str ''10.0.0.2''), (''bootid'', Num 7), (''st'', Str ''urn:a:7'')],
      boot_state 8 [Called ''bootid'']) \<and>
   create_fmt boot_params boot_service (boot_state 8 [Called ''bootid'']) =
     (Inr [(''ip'', Str ''10.0.0.2''), (''bootid'', Num 8), (''st'', Str ''urn:a:8'')],
      boot_state 9 [Called ''bootid'', Called ''bootid'']) \<and>
   distinct (keys boot_params) \<and> nondecreasing boot_params \<and>
   map_of boot_params ''bootid'' = Some (Computed counter) \<and>
   ''bootid'' \<notin> set (keys boot_service) \<and>
   events (boot_state 8 [Called ''bootid'']) =
     events (boot_state 7 []) @ map Called (computed_keys boot_params) \<and>
   count_list (computed_keys boot_params) ''bootid'' = 1 \<and>
   (\<exists>n1 n2.
      map_of [(''ip'', Str ''10.0.0.2''), (''bootid'', Num 7), (''st'', Str ''urn:a:7'')] ''bootid'' =
        Some (Num n1) \<and>
      map_of [(''ip'', Str ''10.0.0.2''), (''bootid'', Num 8), (''st'', Str ''urn:a:8'')] ''bootid'' =
        Some (Num n2) \<and> n1 < n2)"
proof -
  note t = producers_invoked_once_per_render
    [of boot_params boot_service "boot_state 7 []"
        "[(''ip'', Str ''10.0.0.2''), (''bootid'', Num 7), (''st'', Str ''urn:a:7'')]"
        "boot_state 8 [Called ''bootid'']"
        boot_params "''bootid''" boot_service "boot_state 7 []"
        "[(''ip'', Str ''10.0.0.2''), (''bootid'', Num 7), (''st'', Str ''urn:a:7'')]"
        "boot_state 8 [Called ''bootid'']"
        "[(''ip'', Str ''10.0.0.2''), (''bootid'', Num 8), (''st'', Str ''urn:a:8'')]"
        "boot_state 9 [Called ''bootid'', Called ''bootid'']"]
  from t boot_render_1 boot_params_facts
  have 1: "events (boot_state 8 [Called ''bootid'']) =
     events (boot_state 7 []) @ map Called (computed_keys boot_params)"
    and 2: "count_list (computed_keys boot_params) ''bootid'' = 1"
    by blast+
  from t boot_render_1 boot_render_2 boot_params_facts
  have 3: "\<exists>n1 n2.
      map_of [(''ip'', Str ''10.0.0.2''), (''bootid'', Num 7), (''st'', Str ''urn:a:7'')] ''bootid'' =
        Some (Num n1) \<and>
      map_of [(''ip'', Str ''10.0.0.2''), (''bootid'', Num 8), (''st'', Str ''urn:a:8'')] ''bootid'' =
        Some (Num n2) \<and> n1 < n2"
    by blast
  from boot_render_1 boot_render_2 boot_params_facts 1 2 3 show ?thesis by (intro conjI) blast+
qed

section \<open>Traces\<close>

lemma sends_append: "sends (xs @ ys) = sends xs @ sends ys"
  by (induction xs rule: sends.induct) simp_all

lemma sends_Called: "sends (map Called ks) = []"
  by (induction ks) simp_all

lemma sends_emit_Sendto:
  "sends (events (emit_event (Sendto data dest) st)) = sends (events st) @ [(data, dest)]"
  by (simp add: emit_event_def sends_append)

lemma for_loop_Cons_cases:
  assumes "for_loop body (x # xs) acc st = (res, st')"
  obtains e where "body x acc st = (Inl e, st')" and "res = Inl e"
  | acc1 st1 where "body x acc st = (Inr acc1, st1)" and "for_loop body xs acc1 st1 = (res, st')"
  using assms by (auto split: prod.splits sum.splits)

lemma eval_param_sends:
  "eval_param kp fmt st = (res, st') \<Longrightarrow> sends (events st') = sends (events st)"
  by (auto simp: eval_param_def emit_event_def sends_append
      split: prod.splits param.splits sum.splits)

lemma eval_params_sends:
  "for_loop eval_param ps fmt st = (res, st') \<Longrightarrow> sends (events st') = sends (events st)"
proof (induction ps arbitrary: fmt st)
  case Nil
  then show ?case by simp
next
  case (Cons kp ps)
  from Cons.prems show ?case
  proof (rule for_loop_Cons_cases)
    fix e assume "eval_param kp fmt st = (Inl e, st')"
    then show ?thesis by (rule eval_param_sends)
  next
    fix acc1 st1
    assume "eval_param kp fmt st = (Inr acc1, st1)"
      and "for_loop eval_param ps acc1 st1 = (res, st')"
    with Cons.IH eval_param_sends show ?thesis by metis
  qed
qed

lemma create_fmt_sends:
  "create_fmt ps service st = (res, st') \<Longrightarrow> sends (events st') = sends (events st)"
  by (auto simp: create_fmt_def Let_def dest: eval_params_sends split: prod.splits sum.splits)

section \<open>Search responses\<close>

lemma st_test_matches: "st_test fmt v = Inr b \<Longrightarrow> b = st_matches fmt v"
  by (auto simp: st_test_def st_matches_def getitem_def encode_ascii_def
      split: if_splits option.splits pyval.splits sum.splits)

lemma respond_type_Inr:
  assumes "respond_type r sd fmt request v found st = (Inr found', st')"
  shows "(\<not> st_matches fmt v \<and> st' = st) \<or>
         (st_matches fmt v \<and>
          (\<exists>data. render (OK sd) fmt = Inr data \<and>
                  st' = emit_event (Sendto data (REMOTE request)) st))"
proof (cases "st_test fmt v")
  case (Inl e)
  with assms show ?thesis by (simp add: respond_type_def)
next
  case (Inr b)
  from st_test_matches [OF Inr] have b: "b = st_matches fmt v" .
  show ?thesis
  proof (cases b)
    case False
    with assms Inr b show ?thesis by (simp add: respond_type_def)
  next
    case True
    with assms Inr b show ?thesis
      by (auto simp: respond_type_def send_def sendto_def
          split: sum.splits prod.splits option.splits)
  qed
qed

lemma respond_types_sends:
  "for_loop (respond_type r sd fmt request) vs found st = (Inr found', st') \<Longrightarrow>
   sends (events st') =
     sends (events st) @
       (case render (OK sd) fmt of
          Inl e \<Rightarrow> []
        | Inr data \<Rightarrow> map (\<lambda>v. (data, REMOTE request)) (filter (st_matches fmt) vs)) \<and>
   ((\<exists>v \<in> set vs. st_matches fmt v) \<longrightarrow> (\<exists>data. render (OK sd) fmt = Inr data))"
proof (induction vs arbitrary: found st)
  case Nil
  then show ?case by (simp split: sum.splits)
next
  case (Cons v vs)
  from Cons.prems obtain f1 st1 where
    one: "respond_type r sd fmt request v found st = (Inr f1, st1)" and
    rest: "for_loop (respond_type r sd fmt request) vs f1 st1 = (Inr found', st')"
    by (auto split: prod.splits sum.splits)
  note ih = Cons.IH [OF rest]
  from respond_type_Inr [OF one] show ?case
  proof
    assume "\<not> st_matches fmt v \<and> st1 = st"
    with ih show ?thesis by (auto split: sum.splits)
  next
    assume "st_matches fmt v \<and>
          (\<exists>data. render (OK sd) fmt = Inr data \<and>
                  st1 = emit_event (Sendto data (REMOTE request)) st)"
    then obtain data where m: "st_matches fmt v" and d: "render (OK sd) fmt = Inr data"
      and s: "st1 = emit_event (Sendto data (REMOTE request)) st" by blast
    from ih m d s show ?thesis by (simp add: sends_emit_Sendto)
  qed
qed

section \<open>Resolution as a function of the world\<close>

lemma eval_param_world_only:
  "eval_param kp fmt s1 = (res, s1') \<Longrightarrow> world s2 = world s1 \<Longrightarrow>
   \<exists>s2'. eval_param kp fmt s2 = (res, s2') \<and> world s2' = world s1'"
  by (auto simp: eval_param_def emit_event_def split: prod.splits param.splits sum.splits)

lemma eval_params_world_only:
  "for_loop eval_param ps fmt s1 = (res, s1') \<Longrightarrow> world s2 = world s1 \<Longrightarrow>
   \<exists>s2'. for_loop eval_param ps fmt s2 = (res, s2') \<and> world s2' = world s1'"
proof (induction ps arbitrary: fmt s1 s2)
  case Nil
  then show ?case by simp
next
  case (Cons kp ps)
  from Cons.prems(1) show ?case
  proof (rule for_loop_Cons_cases)
    fix e assume b: "eval_param kp fmt s1 = (Inl e, s1')" and r: "res = Inl e"
    from eval_param_world_only [OF b Cons.prems(2)] r show ?thesis by auto
  next
    fix acc1 st1
    assume b: "eval_param kp fmt s1 = (Inr acc1, st1)"
      and l: "for_loop eval_param ps acc1 st1 = (res, s1')"
    from eval_param_world_only [OF b Cons.prems(2)]
    obtain t1 where b2: "eval_param kp fmt s2 = (Inr acc1, t1)" and w: "world t1 = world st1"
      by blast
    from Cons.IH [OF l w] obtain s2' where
      "for_loop eval_param ps acc1 t1 = (res, s2')" and "world s2' = world s1'" by blast
    with b2 show ?thesis by simp
  qed
qed

lemma create_fmt_resolve:
  assumes "create_fmt ps service st = (res, st')"
  shows "resolve ps service (world st) = (res, world st')"
proof -
  let ?s0 = "\<lparr>world = world st, events = []\<rparr>"
  obtain r1 s1 where l: "for_loop eval_param ps [] st = (r1, s1)"
    by (cases "for_loop eval_param ps [] st")
  have "world ?s0 = world st" by simp
  from eval_params_world_only [OF l this]
  obtain s2 where l2: "for_loop eval_param ps [] ?s0 = (r1, s2)"
    and w: "world s2 = world s1" by blast
  show ?thesis
  proof (cases r1)
    case (Inl e)
    from assms have "res = Inl e" and "st' = s1"
      by (simp_all add: create_fmt_def l Inl)
    moreover have "create_fmt ps service ?s0 = (Inl e, s2)"
      by (simp add: create_fmt_def l2 Inl)
    ultimately show ?thesis using w by (simp add: resolve_def)
  next
    case (Inr fmt)
    from assms have "res = resolve_keys (keys (overlay service fmt)) (overlay service fmt)"
      and "st' = s1"
      by (simp_all add: create_fmt_def l Inr Let_def)
    moreover have "create_fmt ps service ?s0 =
        (resolve_keys (keys (overlay service fmt)) (overlay service fmt), s2)"
      by (simp add: create_fmt_def l2 Inr Let_def)
    ultimately show ?thesis using w by (simp add: resolve_def)
  qed
qed

lemma resolve_all_append:
  "length (fst (resolve_all xs w)) = length xs \<Longrightarrow>
   resolve_all (xs @ ys) w =
     (fst (resolve_all xs w) @ fst (resolve_all ys (snd (resolve_all xs w))),
      snd (resolve_all ys (snd (resolve_all xs w))))"
proof (induction xs arbitrary: w)
  case Nil
  then show ?case by simp
next
  case (Cons p xs)
  obtain r w1 where r: "resolve (params (fst p)) (snd p) w = (r, w1)"
    by (cases "resolve (params (fst p)) (snd p) w")
  show ?case
  proof (cases r)
    case (Inl e)
    with Cons.prems r show ?thesis by simp
  next
    case (Inr fmt)
    with Cons.prems r have "length (fst (resolve_all xs w1)) = length xs"
      by (simp split: prod.splits)
    from Cons.IH [OF this] r Inr show ?thesis by (simp split: prod.splits)
  qed
qed

lemma resolve_all_Cons_Inr:
  "resolve (params sd) service w = (Inr fmt, w') \<Longrightarrow>
   resolve_all ((sd, service) # rest) w =
     ((sd, fmt) # fst (resolve_all rest w'), snd (resolve_all rest w'))"
  by (simp add: case_prod_beta)

text \<open>The two nested loops over descriptors and services, against \<open>resolve_all\<close>.\<close>

lemma services_loop_resolved:
  assumes body: "\<And>service a s a' s'. body service a s = (Inr a', s') \<Longrightarrow>
      \<exists>fmt. resolve (params sd) service (world s) = (Inr fmt, world s') \<and> Q sd fmt \<and>
        sends (events s') = sends (events s) @ out sd fmt"
  shows "for_loop body svcs a st = (Inr a', st') \<Longrightarrow>
     length (fst (resolve_all (map (Pair sd) svcs) (world st))) = length svcs \<and>
     world st' = snd (resolve_all (map (Pair sd) svcs) (world st)) \<and>
     list_all (\<lambda>p. Q (fst p) (snd p)) (fst (resolve_all (map (Pair sd) svcs) (world st))) \<and>
     sends (events st') =
       sends (events st) @
         concat (map (\<lambda>p. out (fst p) (snd p)) (fst (resolve_all (map (Pair sd) svcs) (world st))))"
proof (induction svcs arbitrary: a st)
  case Nil
  then show ?case by simp
next
  case (Cons service svcs)
  from Cons.prems obtain a1 s1 where
    one: "body service a st = (Inr a1, s1)" and
    rest: "for_loop body svcs a1 s1 = (Inr a', st')"
    by (rule for_loop_Cons_Inr)
  from body [OF one] obtain fmt where
    r: "resolve (params sd) service (world st) = (Inr fmt, world s1)" and q: "Q sd fmt" and
    s: "sends (events s1) = sends (events st) @ out sd fmt" by blast
  from Cons.IH [OF rest] q s show ?case by (simp add: resolve_all_Cons_Inr [OF r] del: resolve_all.simps)
qed

lemma descriptors_loop_resolved:
  assumes body: "\<And>sd service a s a' s'. body sd service a s = (Inr a', s') \<Longrightarrow>
      \<exists>fmt. resolve (params sd) service (world s) = (Inr fmt, world s') \<and> Q sd fmt \<and>
        sends (events s') = sends (events s) @ out sd fmt"
    and dbody: "\<And>sd a s. dbody sd a s = for_loop (body sd) (services sd) a s"
  shows "for_loop dbody sds a st = (Inr a', st') \<Longrightarrow>
     length (fst (resolve_all (all_services sds) (world st))) = length (all_services sds) \<and>
     world st' = snd (resolve_all (all_services sds) (world st)) \<and>
     list_all (\<lambda>p. Q (fst p) (snd p)) (fst (resolve_all (all_services sds) (world st))) \<and>
     sends (events st') =
       sends (events st) @
         concat (map (\<lambda>p. out (fst p) (snd p)) (fst (resolve_all (all_services sds) (world st))))"
proof (induction sds arbitrary: a st)
  case Nil
  then show ?case by (simp add: all_services_def)
next
  case (Cons sd sds)
  from Cons.prems obtain a1 s1 where
    one: "dbody sd a st = (Inr a1, s1)" and
    rest: "for_loop dbody sds a1 s1 = (Inr a', st')"
    by (rule for_loop_Cons_Inr)
  from one have l: "for_loop (body sd) (services sd) a st = (Inr a1, s1)" by (simp add: dbody)
  let ?xs = "map (Pair sd) (services sd)"
  have b: "\<And>service a s a' s'. body sd service a s = (Inr a', s') \<Longrightarrow>
      \<exists>fmt. resolve (params sd) service (world s) = (Inr fmt, world s') \<and> Q sd fmt \<and>
        sends (events s') = sends (events s) @ out sd fmt"
    by (rule body)
  from services_loop_resolved [of "body sd" sd Q out, OF b l]
  have 1: "length (fst (resolve_all ?xs (world st))) = length (services sd)"
    and 2: "world s1 = snd (resolve_all ?xs (world st))"
    and 3: "list_all (\<lambda>p. Q (fst p) (snd p)) (fst (resolve_all ?xs (world st)))"
    and 4: "sends (events s1) =
       sends (events st) @ concat (map (\<lambda>p. out (fst p) (snd p)) (fst (resolve_all ?xs (world st))))"
    by simp_all
  from 1 have "length (fst (resolve_all ?xs (world st))) = length ?xs" by simp
  from resolve_all_append [OF this, of "all_services sds"] 2
  have app: "resolve_all (all_services (sd # sds)) (world st) =
     (fst (resolve_all ?xs (world st)) @ fst (resolve_all (all_services sds) (world s1)),
      snd (resolve_all (all_services sds) (world s1)))"
    by (simp add: all_services_def)
  from Cons.IH [OF rest] 1 3 4 show ?case
    by (simp add: app) (simp add: all_services_def)
qed

section \<open>Search responses of a whole dispatch\<close>

lemma for_loop_world:
  assumes "for_loop body xs a st = (res, st')"
    and "\<And>x a s res s'. body x a s = (res, s') \<Longrightarrow> world s' = world s"
  shows "world st' = world st"
  using assms(1)
proof (induction xs arbitrary: a st)
  case Nil
  then show ?case by simp
next
  case (Cons x xs)
  from Cons.prems show ?case
  proof (rule for_loop_Cons_cases)
    fix e assume "body x a st = (Inl e, st')"
    then show ?thesis by (rule assms(2))
  next
    fix acc1 st1
    assume b: "body x a st = (Inr acc1, st1)" and l: "for_loop body xs acc1 st1 = (res, st')"
    from assms(2) [OF b] Cons.IH [OF l] show ?thesis by simp
  qed
qed

lemma sendto_world: "sendto r data dest st = (res, st') \<Longrightarrow> world st' = world st"
  by (auto simp: sendto_def emit_event_def split: option.splits)

lemma respond_type_world:
  "respond_type r sd fmt request v found st = (res, st') \<Longrightarrow> world st' = world st"
  by (auto simp: respond_type_def send_def dest: sendto_world
      split: sum.splits bool.splits prod.splits)

lemma respond_service_resolved:
  assumes "respond_service r request sd service found st = (Inr found', st')"
  shows "\<exists>fmt. resolve (params sd) service (world st) = (Inr fmt, world st') \<and>
           rendered_if_matched request sd fmt \<and>
           sends (events st') = sends (events st) @ responses sd request fmt"
proof -
  from assms obtain fmt s1 where
    c: "create_fmt (params sd) service st = (Inr fmt, s1)" and
    l: "for_loop (respond_type r sd fmt request) (header_values (HEADERS request) ''ST'') found s1 =
          (Inr found', st')"
    by (auto simp: respond_service_def split: prod.splits sum.splits)
  have step: "\<And>x a s res s'. respond_type r sd fmt request x a s = (res, s') \<Longrightarrow>
      world s' = world s"
    by (rule respond_type_world)
  have "world st' = world s1" by (rule for_loop_world [OF l step])
  with create_fmt_resolve [OF c]
  have 1: "resolve (params sd) service (world st) = (Inr fmt, world st')" by simp
  from create_fmt_sends [OF c] have "sends (events s1) = sends (events st)" .
  with respond_types_sends [OF l]
  have 2: "sends (events st') = sends (events st) @ responses sd request fmt"
    and "(\<exists>v \<in> set (header_values (HEADERS request) ''ST''). st_matches fmt v) \<longrightarrow>
           (\<exists>data. render (OK sd) fmt = Inr data)"
    by (simp_all add: responses_def)
  then have 3: "rendered_if_matched request sd fmt"
    by (auto simp: rendered_if_matched_def list_ex_iff)
  from 1 2 3 show ?thesis by blast
qed

lemma respond_ok_static_resolved:
  assumes "respond_ok_static r request st = (Inr (), st')" and "services_opt r = Some sds"
  shows "length (fst (resolve_all (all_services sds) (world st))) = length (all_services sds) \<and>
         list_all (\<lambda>p. rendered_if_matched request (fst p) (snd p))
           (fst (resolve_all (all_services sds) (world st))) \<and>
         sends (events st') =
           sends (events st) @ search_responses request (all_services sds) (world st)"
proof -
  from assms obtain found s1 where
    l: "for_loop (respond_descriptor r request) sds False st = (Inr found, s1)" and
    s: "st' = emit_event (Info (Search_result (header_values (HEADERS request) ''ST'') found)) s1"
    by (auto simp: respond_ok_static_def split: prod.splits sum.splits)
  have body: "\<And>sd service a s a' s'. respond_service r request sd service a s = (Inr a', s') \<Longrightarrow>
      \<exists>fmt. resolve (params sd) service (world s) = (Inr fmt, world s') \<and>
        rendered_if_matched request sd fmt \<and>
        sends (events s') = sends (events s) @ responses sd request fmt"
    by (rule respond_service_resolved)
  have dbody: "\<And>sd a s. respond_descriptor r request sd a s =
      for_loop (respond_service r request sd) (services sd) a s"
    by (simp add: respond_descriptor_def)
  note t = descriptors_loop_resolved
    [of "respond_service r request" "rendered_if_matched request"
        "\<lambda>sd fmt. responses sd request fmt" "respond_descriptor r request", OF body dbody l]
  from s have "sends (events st') = sends (events s1)"
    by (simp add: emit_event_def sends_append)
  with t show ?thesis by (simp add: search_responses_def)
qed

lemma run_step_search:
  "parse_request datagram = Inr (Some request) \<Longrightarrow> METHOD request = ''M-SEARCH'' \<Longrightarrow>
   services_opt r = Some sds \<Longrightarrow>
   run_step r datagram () st = respond_ok_static r request st"
  by (simp add: run_step_def respond_ok_def)

lemma discovery_failed_run:
  "respond_ok_static failing_responder discovery_request empty_state = (Inl OSError, failed_search)"
  by code_simp

text \<open>
  Claim C1, as stated, fails: the search target \<open>ssdp:all\<close> starts with the generic
  prefix and \<open>urn:c\<close> is a configured service whose response the socket would accept,
  but the send for the service before it raises, the dispatch ends with that exception
  and no response is sent for \<open>urn:c\<close>.
\<close>

theorem generic_discovery_left_unanswered:
  "respond_ok_static failing_responder discovery_request empty_state =
     (Inl OSError, \<lparr>world = (), events = [Sendto ok_a requester]\<rparr>) \<and>
   header_values (HEADERS discovery_request) ''ST'' = [''ssdp:all''] \<and>
   startswith ''ssdp:all'' ''ssdp:'' \<and>
   services_opt failing_responder = Some [two_services] \<and>
   services two_services = [[(''st'', Str ''urn:a'')], [(''st'', Str ''urn:c'')]] \<and>
   sock failing_responder ok_c requester = None"
  by code_simp

text \<open>
  Claim C1, amended. The dispatcher answers a parsed \<open>M-SEARCH\<close> request through
  \<open>respond_ok_static\<close>. When that returns without an exception, the fields of every
  configured service have been resolved, each from the world the service before it
  left, and the datagrams sent are, service by service in that order and for these
  very fields, one rendered search response to the requester for every value of the
  \<open>ST\<close> header that starts with \<open>ssdp:\<close> or equals the resolved \<open>st\<close> field, and none
  for any other value.
\<close>

theorem search_target_matching:
  "(parse_request datagram = Inr (Some request) \<and> METHOD request = ''M-SEARCH'' \<and>
    services_opt r = Some sds \<longrightarrow>
      run_step r datagram () st = respond_ok_static r request st) \<and>
   (respond_ok_static r request st = (Inr (), st') \<and> services_opt r = Some sds \<longrightarrow>
      length (fst (resolve_all (all_services sds) (world st))) = length (all_services sds) \<and>
      list_all (\<lambda>p. rendered_if_matched request (fst p) (snd p))
        (fst (resolve_all (all_services sds) (world st))) \<and>
      sends (events st') =
        sends (events st) @ search_responses request (all_services sds) (world st))"
proof (intro conjI impI)
  assume "parse_request datagram = Inr (Some request) \<and> METHOD request = ''M-SEARCH'' \<and>
    services_opt r = Some sds"
  then show "run_step r datagram () st = respond_ok_static r request st"
    by (simp add: run_step_search)
next
  assume h: "respond_ok_static r request st = (Inr (), st') \<and> services_opt r = Some sds"
  then have a: "respond_ok_static r request st = (Inr (), st')"
    and b: "services_opt r = Some sds" by simp_all
  note t = respond_ok_static_resolved [OF a b]
  from t show "length (fst (resolve_all (all_services sds) (world st))) =
      length (all_services sds)" by simp
  from t show "list_all (\<lambda>p. rendered_if_matched request (fst p) (snd p))
        (fst (resolve_all (all_services sds) (world st)))" by simp
  from t show "sends (events st') =
        sends (events st) @ search_responses request (all_services sds) (world st)" by simp
qed

lemma search_run:
  "respond_ok_static search_responder search_request empty_state = (Inr (), search_done)"
  by code_simp

lemma discovery_parse:
  "parse_request (discovery_datagram, requester) = Inr (Some discovery_request)"
  by code_simp

lemma search_expected:
  "search_responses search_request (all_services [two_services]) (world empty_state) =
     [(ok_a, requester), (ok_a, requester), (ok_c, requester)]"
  by code_simp

theorem search_target_matching_witness:
  "parse_request (discovery_datagram, requester) = Inr (Some discovery_request) \<and>
   METHOD discovery_request = ''M-SEARCH'' \<and>
   services_opt search_responder = Some [two_services] \<and>
   run_step search_responder (discovery_datagram, requester) () empty_state =
     respond_ok_static search_responder discovery_request empty_state \<and>
   respond_ok_static search_responder search_request empty_state = (Inr (), search_done) \<and>
   length (fst (resolve_all (all_services [two_services]) (world empty_state))) =
     length (all_services [two_services]) \<and>
   sends (events search_done) =
     sends (events empty_state) @
       search_responses search_request (all_services [two_services]) (world empty_state) \<and>
   search_responses search_request (all_services [two_services]) (world empty_state) =
     [(ok_a, requester), (ok_a, requester), (ok_c, requester)]"
proof -
  have h: "services_opt search_responder = Some [two_services]"
    by (simp add: search_responder_def)
  have m: "METHOD discovery_request = ''M-SEARCH''" by (simp add: discovery_request_def)
  note t1 = search_target_matching
    [of "(discovery_datagram, requester)" discovery_request search_responder "[two_services]"
        empty_state empty_state]
  note t2 = search_target_matching
    [of "(discovery_datagram, requester)" search_request search_responder "[two_services]"
        empty_state search_done]
  from t1 discovery_parse m h
  have 1: "run_step search_responder (discovery_datagram, requester) () empty_state =
     respond_ok_static search_responder discovery_request empty_state" by blast
  from t2 search_run h
  have 2: "length (fst (resolve_all (all_services [two_services]) (world empty_state))) =
     length (all_services [two_services])"
    and 3: "sends (events search_done) =
     sends (events empty_state) @
       search_responses search_request (all_services [two_services]) (world empty_state)"
    by blast+
  from discovery_parse m h 1 search_run 2 3 search_expected show ?thesis by (intro conjI)
qed

section \<open>Send failures\<close>

lemma delivered_append: "delivered r (xs @ ys) = (delivered r xs \<and> delivered r ys)"
  by (simp add: delivered_def)

lemma stops_Inr: "stops_at_failure r (Inr x) ss = delivered r ss"
  by (simp add: stops_at_failure_def)

lemma stops_unchanged:
  "delivered r ss \<Longrightarrow> stops_at_failure r res ss"
  by (cases res) (simp_all add: stops_at_failure_def)

lemma sendto_stops:
  assumes "sendto r data dest st = (res, st')" and "delivered r (sends (events st))"
  shows "stops_at_failure r res (sends (events st'))"
proof (cases "sock r data dest")
  case None
  with assms show ?thesis
    by (auto simp: sendto_def sends_emit_Sendto stops_at_failure_def delivered_def)
next
  case (Some e)
  with assms show ?thesis
    by (auto simp: sendto_def sends_emit_Sendto stops_at_failure_def)
qed

lemma stops_retag:
  "stops_at_failure r (Inl e :: error + 'a) ss \<Longrightarrow> stops_at_failure r (Inl e :: error + 'b) ss"
  by (simp add: stops_at_failure_def)

lemma for_loop_stops:
  assumes "for_loop body xs acc st = (res, st')" and "delivered r (sends (events st))"
    and "\<And>x a s res s'. body x a s = (res, s') \<Longrightarrow> delivered r (sends (events s)) \<Longrightarrow>
           stops_at_failure r res (sends (events s'))"
  shows "stops_at_failure r res (sends (events st'))"
  using assms(1,2)
proof (induction xs arbitrary: acc st)
  case Nil
  then show ?case by (auto simp: stops_Inr)
next
  case (Cons x xs)
  from Cons.prems(1) show ?case
  proof (rule for_loop_Cons_cases)
    fix e assume b: "body x acc st = (Inl e, st')" and r: "res = Inl e"
    from assms(3) [OF b Cons.prems(2)] r show ?thesis by simp
  next
    fix acc1 st1
    assume b: "body x acc st = (Inr acc1, st1)" and l: "for_loop body xs acc1 st1 = (res, st')"
    from assms(3) [OF b Cons.prems(2)] have "delivered r (sends (events st1))"
      by (simp add: stops_Inr)
    from Cons.IH [OF l this] show ?thesis .
  qed
qed

lemma respond_type_stops:
  assumes "respond_type r sd fmt request v found st = (res, st')"
    and "delivered r (sends (events st))"
  shows "stops_at_failure r res (sends (events st'))"
proof (cases "\<exists>data. st_test fmt v = Inr True \<and> render (OK sd) fmt = Inr data")
  case False
  with assms(1) have "st' = st"
    by (auto simp: respond_type_def split: sum.splits bool.splits)
  with assms(2) show ?thesis by (simp add: stops_unchanged)
next
  case True
  then obtain data where t: "st_test fmt v = Inr True" and d: "render (OK sd) fmt = Inr data"
    by blast
  obtain res1 st1 where s: "sendto r data (REMOTE request) st = (res1, st1)"
    by (cases "sendto r data (REMOTE request) st")
  from sendto_stops [OF s assms(2)] have st: "stops_at_failure r res1 (sends (events st1))" .
  show ?thesis
  proof (cases res1)
    case (Inl e)
    with assms(1) t d s have "res = Inl e" and "st' = st1"
      by (simp_all add: respond_type_def send_def)
    with st Inl show ?thesis by (simp add: stops_at_failure_def)
  next
    case (Inr u)
    with assms(1) t d s have "res = Inr True" and "st' = st1"
      by (simp_all add: respond_type_def send_def)
    with st Inr show ?thesis by (simp add: stops_at_failure_def)
  qed
qed

lemma respond_service_stops:
  assumes "respond_service r request sd service found st = (res, st')"
    and "delivered r (sends (events st))"
  shows "stops_at_failure r res (sends (events st'))"
proof -
  obtain res1 st1 where c: "create_fmt (params sd) service st = (res1, st1)"
    by (cases "create_fmt (params sd) service st")
  from create_fmt_sends [OF c] assms(2) have d1: "delivered r (sends (events st1))" by simp
  show ?thesis
  proof (cases res1)
    case (Inl e)
    with assms(1) c have "res = Inl e" and "st' = st1" by (simp_all add: respond_service_def)
    with d1 show ?thesis by (simp add: stops_unchanged)
  next
    case (Inr fmt)
    with assms(1) c
    have l: "for_loop (respond_type r sd fmt request) (header_values (HEADERS request) ''ST'')
               found st1 = (res, st')"
      by (simp add: respond_service_def)
    have step: "\<And>x a s res s'. respond_type r sd fmt request x a s = (res, s') \<Longrightarrow>
        delivered r (sends (events s)) \<Longrightarrow> stops_at_failure r res (sends (events s'))"
      by (rule respond_type_stops)
    show ?thesis by (rule for_loop_stops [OF l d1 step])
  qed
qed

lemma respond_descriptor_stops:
  assumes "respond_descriptor r request sd found st = (res, st')"
    and "delivered r (sends (events st))"
  shows "stops_at_failure r res (sends (events st'))"
proof -
  from assms(1) have l: "for_loop (respond_service r request sd) (services sd) found st = (res, st')"
    by (simp add: respond_descriptor_def)
  have step: "\<And>x a s res s'. respond_service r request sd x a s = (res, s') \<Longrightarrow>
      delivered r (sends (events s)) \<Longrightarrow> stops_at_failure r res (sends (events s'))"
    by (rule respond_service_stops)
  show ?thesis by (rule for_loop_stops [OF l assms(2) step])
qed

lemma respond_ok_static_stops:
  assumes "respond_ok_static r request st = (res, st')"
    and "delivered r (sends (events st))"
  shows "stops_at_failure r res (sends (events st'))"
proof (cases "services_opt r")
  case None
  with assms(1) have "st' = st" by (simp add: respond_ok_static_def)
  with assms(2) show ?thesis by (simp add: stops_unchanged)
next
  case (Some sds)
  obtain res1 st1 where l: "for_loop (respond_descriptor r request) sds False st = (res1, st1)"
    by (cases "for_loop (respond_descriptor r request) sds False st")
  have step: "\<And>x a s res s'. respond_descriptor r request x a s = (res, s') \<Longrightarrow>
      delivered r (sends (events s)) \<Longrightarrow> stops_at_failure r res (sends (events s'))"
    by (rule respond_descriptor_stops)
  have st: "stops_at_failure r res1 (sends (events st1))"
    by (rule for_loop_stops [OF l assms(2) step])
  show ?thesis
  proof (cases res1)
    case (Inl e)
    with assms(1) Some l have "res = Inl e" and "st' = st1"
      by (simp_all add: respond_ok_static_def)
    with st Inl show ?thesis by (simp add: stops_at_failure_def)
  next
    case (Inr found)
    with assms(1) Some l have "res = Inr ()" and "sends (events st') = sends (events st1)"
      by (auto simp: respond_ok_static_def emit_event_def sends_append)
    with st Inr show ?thesis by (simp add: stops_at_failure_def)
  qed
qed

lemma notify_service_stops:
  assumes "notify_service r nts sd service u st = (res, st')"
    and "delivered r (sends (events st))"
  shows "stops_at_failure r res (sends (events st'))"
proof -
  obtain res1 st1 where c: "create_fmt (params sd) service st = (res1, st1)"
    by (cases "create_fmt (params sd) service st")
  from create_fmt_sends [OF c] assms(2) have d1: "delivered r (sends (events st1))" by simp
  show ?thesis
  proof (cases res1)
    case (Inl e)
    with assms(1) c have "res = Inl e" and "st' = st1" by (simp_all add: notify_service_def)
    with d1 show ?thesis by (simp add: stops_unchanged)
  next
    case (Inr fmt)
    show ?thesis
    proof (cases "render (NOTIFY sd) (setitem fmt ''nts'' (Bytes nts))")
      case (Inl e)
      with assms(1) c Inr have "st' = st1" by (simp add: notify_service_def)
      with d1 show ?thesis by (simp add: stops_unchanged)
    next
      case data: (Inr data)
      with assms(1) c Inr have "sendto r data (address r, port r) st1 = (res, st')"
        by (simp add: notify_service_def)
      from sendto_stops [OF this d1] show ?thesis .
    qed
  qed
qed

lemma notify_descriptor_stops:
  assumes "notify_descriptor r nts sd u st = (res, st')"
    and "delivered r (sends (events st))"
  shows "stops_at_failure r res (sends (events st'))"
proof -
  from assms(1) have l: "for_loop (notify_service r nts sd) (services sd) u st = (res, st')"
    by (simp add: notify_descriptor_def)
  have step: "\<And>x a s res s'. notify_service r nts sd x a s = (res, s') \<Longrightarrow>
      delivered r (sends (events s)) \<Longrightarrow> stops_at_failure r res (sends (events s'))"
    by (rule notify_service_stops)
  show ?thesis by (rule for_loop_stops [OF l assms(2) step])
qed

lemma do_notify_stops:
  assumes "do_notify r nts st = (res, st')"
    and "delivered r (sends (events st))"
  shows "stops_at_failure r res (sends (events st'))"
proof (cases "services_opt r")
  case None
  with assms(1) have "st' = st" by (simp add: do_notify_def)
  with assms(2) show ?thesis by (simp add: stops_unchanged)
next
  case (Some sds)
  with assms(1) have l: "for_loop (notify_descriptor r nts) sds () st = (res, st')"
    by (simp add: do_notify_def)
  have step: "\<And>x a s res s'. notify_descriptor r nts x a s = (res, s') \<Longrightarrow>
      delivered r (sends (events s)) \<Longrightarrow> stops_at_failure r res (sends (events s'))"
    by (rule notify_descriptor_stops)
  show ?thesis by (rule for_loop_stops [OF l assms(2) step])
qed

lemma failed_search_run:
  "respond_ok_static failing_responder search_request empty_state = (Inl OSError, failed_search)"
  by code_simp

lemma failed_notify_run:
  "do_notify failing_responder ''ssdp:goodbye'' empty_state = (Inl OSError, failed_notify)"
  by code_simp

text \<open>
  Claim C6, as stated, fails: the socket rejects the datagram of the first service and
  would accept the one of the second; the search response and the announcement pass
  both end with \<open>OSError\<close> after the first \<open>sendto\<close>, and nothing is sent for the second
  service.
\<close>

theorem send_failure_aborts_remaining_services:
  "respond_ok_static failing_responder search_request empty_state =
     (Inl OSError, \<lparr>world = (), events = [Sendto ok_a requester]\<rparr>) \<and>
   do_notify failing_responder ''ssdp:goodbye'' empty_state =
     (Inl OSError, \<lparr>world = (), events = [Sendto bye_a multicast_group]\<rparr>) \<and>
   sock failing_responder ok_c requester = None \<and>
   sock failing_responder bye_c multicast_group = None"
  by code_simp

text \<open>
  Claim C6, amended. A send that fails ends the iteration over descriptors and services,
  in a search response and in an announcement pass alike: started with all earlier
  sends delivered, the call either returns with every send delivered, or raises; and
  when a send has failed, that send is the last one attempted and its exception is the
  result of the call.
\<close>

theorem send_failure_ends_iteration:
  assumes "delivered r (sends (events st))"
  shows "(respond_ok_static r request st = (res, st') \<longrightarrow>
            stops_at_failure r res (sends (events st'))) \<and>
         (do_notify r nts st = (res, st') \<longrightarrow> stops_at_failure r res (sends (events st')))"
  using assms respond_ok_static_stops do_notify_stops by blast

theorem send_failure_ends_iteration_witness:
  "delivered failing_responder (sends (events empty_state)) \<and>
   respond_ok_static failing_responder search_request empty_state = (Inl OSError, failed_search) \<and>
   stops_at_failure failing_responder (Inl OSError :: error + unit) (sends (events failed_search)) \<and>
   do_notify failing_responder ''ssdp:goodbye'' empty_state = (Inl OSError, failed_notify) \<and>
   stops_at_failure failing_responder (Inl OSError :: error + unit) (sends (events failed_notify))"
proof -
  have d: "delivered failing_responder (sends (events empty_state))"
    by (simp add: empty_state_def delivered_def)
  from send_failure_ends_iteration
    [OF d, of search_request "Inl OSError" failed_search "''ssdp:goodbye''"] failed_search_run
  have 1: "stops_at_failure failing_responder (Inl OSError :: error + unit)
             (sends (events failed_search))" by blast
  from send_failure_ends_iteration
    [OF d, of search_request "Inl OSError" failed_notify "''ssdp:goodbye''"] failed_notify_run
  have 2: "stops_at_failure failing_responder (Inl OSError :: error + unit)
             (sends (events failed_notify))" by blast
  from d failed_search_run 1 failed_notify_run 2 show ?thesis by (intro conjI)
qed

section \<open>Announcements and shutdown\<close>

lemma eval_param_extends:
  "eval_param kp fmt st = (res, st') \<Longrightarrow> \<exists>new. events st' = events st @ new"
  by (auto simp: eval_param_def emit_event_def split: prod.splits param.splits sum.splits)

lemma for_loop_extends:
  assumes "for_loop body xs acc st = (res, st')"
    and "\<And>x a s res s'. body x a s = (res, s') \<Longrightarrow> \<exists>new. events s' = events s @ new"
  shows "\<exists>new. events st' = events st @ new"
  using assms(1)
proof (induction xs arbitrary: acc st)
  case Nil
  then show ?case by simp
next
  case (Cons x xs)
  from Cons.prems show ?case
  proof (rule for_loop_Cons_cases)
    fix e assume "body x acc st = (Inl e, st')"
    then show ?thesis by (rule assms(2))
  next
    fix acc1 st1
    assume b: "body x acc st = (Inr acc1, st1)" and l: "for_loop body xs acc1 st1 = (res, st')"
    from assms(2) [OF b] obtain n1 where "events st1 = events st @ n1" by blast
    moreover from Cons.IH [OF l] obtain n2 where "events st' = events st1 @ n2" by blast
    ultimately have "events st' = events st @ (n1 @ n2)" by simp
    then show ?thesis by blast
  qed
qed

lemma create_fmt_extends:
  assumes "create_fmt ps service st = (res, st')"
  shows "\<exists>new. events st' = events st @ new"
proof -
  obtain res1 st1 where l: "for_loop eval_param ps [] st = (res1, st1)"
    by (cases "for_loop eval_param ps [] st")
  have step: "\<And>x a s res s'. eval_param x a s = (res, s') \<Longrightarrow> \<exists>new. events s' = events s @ new"
    by (rule eval_param_extends)
  have "\<exists>new. events st1 = events st @ new" by (rule for_loop_extends [OF l step])
  moreover from assms l have "st' = st1"
    by (cases res1) (simp_all add: create_fmt_def Let_def)
  ultimately show ?thesis by simp
qed

lemma sendto_extends:
  "sendto r data dest st = (res, st') \<Longrightarrow> \<exists>new. events st' = events st @ new"
  by (auto simp: sendto_def emit_event_def split: option.splits)

lemma notify_service_extends:
  assumes "notify_service r nts sd service u st = (res, st')"
  shows "\<exists>new. events st' = events st @ new"
proof -
  obtain res1 st1 where c: "create_fmt (params sd) service st = (res1, st1)"
    by (cases "create_fmt (params sd) service st")
  from create_fmt_extends [OF c] obtain n1 where n1: "events st1 = events st @ n1" by blast
  have "\<exists>n2. events st' = events st1 @ n2"
  proof (cases res1)
    case (Inl e)
    with assms c have "st' = st1" by (simp add: notify_service_def)
    then show ?thesis by simp
  next
    case (Inr fmt)
    show ?thesis
    proof (cases "render (NOTIFY sd) (setitem fmt ''nts'' (Bytes nts))")
      case (Inl e)
      with assms c Inr have "st' = st1" by (simp add: notify_service_def)
      then show ?thesis by simp
    next
      case data: (Inr data)
      with assms c Inr have "sendto r data (address r, port r) st1 = (res, st')"
        by (simp add: notify_service_def)
      then show ?thesis by (rule sendto_extends)
    qed
  qed
  then obtain n2 where "events st' = events st1 @ n2" by blast
  with n1 have "events st' = events st @ (n1 @ n2)" by simp
  then show ?thesis by blast
qed

lemma notify_descriptor_extends:
  assumes "notify_descriptor r nts sd u st = (res, st')"
  shows "\<exists>new. events st' = events st @ new"
proof -
  from assms have l: "for_loop (notify_service r nts sd) (services sd) u st = (res, st')"
    by (simp add: notify_descriptor_def)
  have step: "\<And>x a s res s'. notify_service r nts sd x a s = (res, s') \<Longrightarrow>
      \<exists>new. events s' = events s @ new"
    by (rule notify_service_extends)
  show ?thesis by (rule for_loop_extends [OF l step])
qed

lemma do_notify_extends:
  assumes "do_notify r nts st = (res, st')"
  shows "\<exists>new. events st' = events st @ new"
proof (cases "services_opt r")
  case None
  with assms have "st' = st" by (simp add: do_notify_def)
  then show ?thesis by simp
next
  case (Some sds)
  with assms have l: "for_loop (notify_descriptor r nts) sds () st = (res, st')"
    by (simp add: do_notify_def)
  have step: "\<And>x a s res s'. notify_descriptor r nts x a s = (res, s') \<Longrightarrow>
      \<exists>new. events s' = events s @ new"
    by (rule notify_descriptor_extends)
  show ?thesis by (rule for_loop_extends [OF l step])
qed

lemma announced_concat:
  "list_all (\<lambda>p. \<not> isl (f p)) fs \<Longrightarrow>
   map Inr (concat (map (\<lambda>p. case f p of Inl e \<Rightarrow> [] | Inr x \<Rightarrow> [x]) fs)) = map f fs"
  by (induction fs) (auto split: sum.splits)

lemma notify_service_resolved:
  assumes "notify_service r nts sd service u st = (Inr u', st')"
  shows "\<exists>fmt. resolve (params sd) service (world st) = (Inr fmt, world st') \<and>
           \<not> isl (announcement nts (address r, port r) (sd, fmt)) \<and>
           sends (events st') =
             sends (events st) @
               (case announcement nts (address r, port r) (sd, fmt) of
                  Inl e \<Rightarrow> [] | Inr x \<Rightarrow> [x])"
proof -
  from assms obtain fmt st1 data where
    c: "create_fmt (params sd) service st = (Inr fmt, st1)" and
    d: "render (NOTIFY sd) (setitem fmt ''nts'' (Bytes nts)) = Inr data" and
    s: "sendto r data (address r, port r) st1 = (Inr u', st')"
    by (auto simp: notify_service_def split: prod.splits sum.splits)
  from s have st': "st' = emit_event (Sendto data (address r, port r)) st1"
    by (auto simp: sendto_def split: option.splits)
  then have "world st' = world st1" by (simp add: emit_event_def)
  with create_fmt_resolve [OF c]
  have 1: "resolve (params sd) service (world st) = (Inr fmt, world st')" by simp
  from d have 2: "announcement nts (address r, port r) (sd, fmt) = Inr (data, (address r, port r))"
    by (simp add: announcement_def)
  from st' create_fmt_sends [OF c]
  have 3: "sends (events st') = sends (events st) @ [(data, (address r, port r))]"
    by (simp add: sends_emit_Sendto)
  from 1 2 3 show ?thesis by auto
qed

lemma do_notify_resolved:
  assumes "do_notify r nts st = (Inr u, st')" and "services_opt r = Some sds"
  shows "\<exists>new. sends (events st') = sends (events st) @ new \<and>
           map Inr new = announcements nts (address r, port r) (all_services sds) (world st) \<and>
           length new = length (all_services sds) \<and>
           world st' = snd (resolve_all (all_services sds) (world st))"
proof -
  let ?dest = "(address r, port r)"
  let ?fs = "fst (resolve_all (all_services sds) (world st))"
  let ?out = "\<lambda>sd fmt. case announcement nts ?dest (sd, fmt) of Inl e \<Rightarrow> [] | Inr x \<Rightarrow> [x]"
  from assms have l: "for_loop (notify_descriptor r nts) sds () st = (Inr u, st')"
    by (simp add: do_notify_def)
  have body: "\<And>sd service a s a' s'. notify_service r nts sd service a s = (Inr a', s') \<Longrightarrow>
      \<exists>fmt. resolve (params sd) service (world s) = (Inr fmt, world s') \<and>
        \<not> isl (announcement nts ?dest (sd, fmt)) \<and>
        sends (events s') = sends (events s) @ ?out sd fmt"
    by (rule notify_service_resolved)
  have dbody: "\<And>sd a s. notify_descriptor r nts sd a s =
      for_loop (notify_service r nts sd) (services sd) a s"
    by (simp add: notify_descriptor_def)
  note t = descriptors_loop_resolved
    [of "notify_service r nts" "\<lambda>sd fmt. \<not> isl (announcement nts ?dest (sd, fmt))"
        ?out "notify_descriptor r nts", OF body dbody l]
  let ?new = "concat (map (\<lambda>p. ?out (fst p) (snd p)) ?fs)"
  from t have len: "length ?fs = length (all_services sds)"
    and w: "world st' = snd (resolve_all (all_services sds) (world st))"
    and q: "list_all (\<lambda>p. \<not> isl (announcement nts ?dest p)) ?fs"
    and sn: "sends (events st') = sends (events st) @ ?new"
    by simp_all
  from announced_concat [OF q] have m: "map Inr ?new = map (announcement nts ?dest) ?fs"
    by simp
  then have "length (map (Inr :: string \<times> addr \<Rightarrow> error + string \<times> addr) ?new) =
      length (map (announcement nts ?dest) ?fs)" by (rule arg_cong)
  with len have "length ?new = length (all_services sds)" by simp
  with sn m w show ?thesis unfolding announcements_def by blast
qed

lemma schedule_loop_resolved:
  assumes "services_opt r = Some sds"
  shows "for_loop (schedule_step r) ticks u st = (Inr u', st') \<Longrightarrow>
     map Inr (sends (events st')) =
       map Inr (sends (events st)) @
         alive_passes (address r, port r) (all_services sds) ticks (world st)"
proof (induction ticks arbitrary: u st)
  case Nil
  then show ?case by simp
next
  case (Cons due ticks)
  from Cons.prems obtain u1 s1 where
    one: "schedule_step r due u st = (Inr u1, s1)" and
    rest: "for_loop (schedule_step r) ticks u1 s1 = (Inr u', st')"
    by (rule for_loop_Cons_Inr)
  note ih = Cons.IH [OF rest]
  show ?case
  proof (cases due)
    case False
    with one have "s1 = st" by (simp add: schedule_step_def)
    with ih False show ?thesis by simp
  next
    case True
    with one have "do_notify r ''ssdp:alive'' st = (Inr u1, s1)" by (simp add: schedule_step_def)
    from do_notify_resolved [OF this assms] obtain new where
      "sends (events s1) = sends (events st) @ new"
      "map Inr new = announcements ''ssdp:alive'' (address r, port r) (all_services sds) (world st)"
      "world s1 = snd (resolve_all (all_services sds) (world st))" by blast
    with ih True show ?thesis by simp
  qed
qed

lemma schedule_handler_resolved:
  assumes "schedule_handler r ticks st = (Inr (), st')" and "services_opt r = Some sds"
  shows "map Inr (sends (events st')) =
       map Inr (sends (events st)) @
         alive_passes (address r, port r) (all_services sds) (True # ticks) (world st)"
proof -
  from assms(1) obtain u1 s1 u2 s2 where
    n: "do_notify r ''ssdp:alive'' st = (Inr u1, s1)" and
    l: "for_loop (schedule_step r) ticks () s1 = (Inr u2, s2)" and
    e: "st' = emit_event (Warn (Text ''Scheduler shutting down...'')) s2"
    by (auto simp: schedule_handler_def split: prod.splits sum.splits)
  from do_notify_resolved [OF n assms(2)] obtain new where
    a: "sends (events s1) = sends (events st) @ new"
    "map Inr new = announcements ''ssdp:alive'' (address r, port r) (all_services sds) (world st)"
    "world s1 = snd (resolve_all (all_services sds) (world st))" by blast
  from schedule_loop_resolved [OF assms(2) l]
  have b: "map Inr (sends (events s2)) =
       map Inr (sends (events s1)) @
         alive_passes (address r, port r) (all_services sds) ticks (world s1)" .
  from e have "sends (events st') = sends (events s2)"
    by (simp add: emit_event_def sends_append)
  with a b show ?thesis by simp
qed

lemma shutdown_returns:
  "(shutdown r exits st \<noteq> None) = (exits Scheduler \<and> exits Receiver)"
  by (auto simp: shutdown_def join_def split: prod.splits sum.splits)

lemma shutdown_trace:
  assumes "shutdown r exits st = Some (res, st')"
  shows "\<exists>after. events st' =
           events st @ [Set_running False, Joined Scheduler, Joined Receiver] @ after \<and>
           (res = Inr () \<and> services_opt r = Some sds \<longrightarrow>
              map Inr (sends after) =
                announcements ''ssdp:goodbye'' (address r, port r) (all_services sds) (world st) \<and>
              length (sends after) = length (all_services sds))"
proof -
  let ?st2 = "emit_event (Joined Receiver)
                (emit_event (Joined Scheduler) (emit_event (Set_running False) st))"
  have e2: "events ?st2 = events st @ [Set_running False, Joined Scheduler, Joined Receiver]"
    by (simp add: emit_event_def)
  have w2: "world ?st2 = world st" by (simp add: emit_event_def)
  obtain res3 st3 where n: "do_notify r ''ssdp:goodbye'' ?st2 = (res3, st3)"
    by (cases "do_notify r ''ssdp:goodbye'' ?st2")
  from assms have ex: "exits Scheduler" "exits Receiver"
    by (auto simp: shutdown_def join_def split: if_splits)
  from do_notify_extends [OF n] obtain new where new: "events st3 = events ?st2 @ new" by blast
  show ?thesis
  proof (cases res3)
    case (Inl e)
    with assms ex n have "res = Inl e" and "st' = st3"
      by (simp_all add: shutdown_def join_def)
    with new e2 have "events st' =
        events st @ [Set_running False, Joined Scheduler, Joined Receiver] @ new" by simp
    moreover have "res \<noteq> Inr ()" using \<open>res = Inl e\<close> by simp
    ultimately show ?thesis by blast
  next
    case (Inr u)
    let ?tail = "[Info (Text ''Shutdown''), Info (Text ''---------------------------'')]"
    from Inr assms ex n have res: "res = Inr ()"
      and st': "st' = emit_event (Info (Text ''---------------------------''))
                        (emit_event (Info (Text ''Shutdown'')) st3)"
      by (auto simp: shutdown_def join_def)
    from st' have "events st' = events st3 @ ?tail" by (simp add: emit_event_def)
    with new e2 have ev: "events st' =
        events st @ [Set_running False, Joined Scheduler, Joined Receiver] @ (new @ ?tail)"
      by simp
    have "map Inr (sends (new @ ?tail)) =
            announcements ''ssdp:goodbye'' (address r, port r) (all_services sds) (world st) \<and>
          length (sends (new @ ?tail)) = length (all_services sds)"
      if sv: "services_opt r = Some sds"
    proof -
      from n Inr have "do_notify r ''ssdp:goodbye'' ?st2 = (Inr u, st3)" by simp
      from do_notify_resolved [OF this sv] obtain x where
        d: "sends (events st3) = sends (events ?st2) @ x"
        and a: "map Inr x =
          announcements ''ssdp:goodbye'' (address r, port r) (all_services sds) (world ?st2)"
        and l: "length x = length (all_services sds)" by blast
      from new have "sends (events st3) = sends (events ?st2) @ sends new"
        by (simp add: sends_append)
      with d have "sends new = x" by simp
      then have "sends (new @ ?tail) = x" by (simp add: sends_append)
      with a l w2 show ?thesis by simp
    qed
    with ev show ?thesis by blast
  qed
qed

lemma shutdown_run:
  "shutdown search_responder (\<lambda>u. True) empty_state = Some (Inr (), shutdown_done)"
  by code_simp

lemma scheduler_run:
  "schedule_handler search_responder [False, True] empty_state = (Inr (), scheduler_done)"
  by code_simp

lemma goodbye_expected:
  "announcements ''ssdp:goodbye'' multicast_group (all_services [two_services]) () =
     [Inr (bye_a, multicast_group), Inr (bye_c, multicast_group)]"
  by code_simp

lemma alive_expected:
  "alive_passes multicast_group (all_services [two_services]) [True, False, True] () =
     [Inr (alive_a, multicast_group), Inr (alive_c, multicast_group),
      Inr (alive_a, multicast_group), Inr (alive_c, multicast_group)]"
  by code_simp

text \<open>
  Claim C4, as stated, fails: with two configured services \<open>shutdown\<close> sends two
  different goodbye datagrams to the multicast group, not exactly one.
\<close>

theorem shutdown_sends_goodbye_per_service:
  "shutdown search_responder (\<lambda>u. True) empty_state =
     Some (Inr (),
       \<lparr>world = (),
        events = [Set_running False, Joined Scheduler, Joined Receiver,
                  Sendto bye_a multicast_group, Sendto bye_c multicast_group,
                  Info (Text ''Shutdown''), Info (Text ''---------------------------'')]\<rparr>) \<and>
   bye_a \<noteq> bye_c"
  by code_simp

text \<open>
  Claim C4, amended. \<open>shutdown\<close> returns exactly when the scheduler and the receiver
  processes both terminate. Whatever its result, it first clears the flag, then joins
  the scheduler, then the receiver, and everything else it does, every send included,
  comes after both joins. When it returns normally, the datagrams it has sent are the
  goodbye announcements of one pass: for every configured service in order, the
  \<open>NOTIFY\<close> template rendered with that service's resolved fields and \<open>nts\<close> set to
  \<open>ssdp:goodbye\<close>, sent to the multicast group; one datagram per service. The
  scheduler, which runs before shutdown is invoked, sends the \<open>ssdp:alive\<close> renderings
  only: one pass at its start and one for every period that falls due.
\<close>

theorem shutdown_ordering:
  "((shutdown r exits st \<noteq> None) = (exits Scheduler \<and> exits Receiver)) \<and>
   (shutdown r exits st = Some (res, st') \<longrightarrow>
      (\<exists>after. events st' =
           events st @ [Set_running False, Joined Scheduler, Joined Receiver] @ after \<and>
         (res = Inr () \<and> services_opt r = Some sds \<longrightarrow>
            map Inr (sends after) =
              announcements ''ssdp:goodbye'' (address r, port r) (all_services sds) (world st) \<and>
            length (sends after) = length (all_services sds)))) \<and>
   (schedule_handler r ticks s0 = (Inr (), s1) \<and> services_opt r = Some sds \<longrightarrow>
      map Inr (sends (events s1)) =
        map Inr (sends (events s0)) @
          alive_passes (address r, port r) (all_services sds) (True # ticks) (world s0))"
proof (intro conjI impI)
  show "(shutdown r exits st \<noteq> None) = (exits Scheduler \<and> exits Receiver)"
    by (rule shutdown_returns)
next
  assume "shutdown r exits st = Some (res, st')"
  then show "\<exists>after. events st' =
           events st @ [Set_running False, Joined Scheduler, Joined Receiver] @ after \<and>
         (res = Inr () \<and> services_opt r = Some sds \<longrightarrow>
            map Inr (sends after) =
              announcements ''ssdp:goodbye'' (address r, port r) (all_services sds) (world st) \<and>
            length (sends after) = length (all_services sds))"
    by (rule shutdown_trace)
next
  assume "schedule_handler r ticks s0 = (Inr (), s1) \<and> services_opt r = Some sds"
  then have "schedule_handler r ticks s0 = (Inr (), s1)" and "services_opt r = Some sds"
    by simp_all
  then show "map Inr (sends (events s1)) =
        map Inr (sends (events s0)) @
          alive_passes (address r, port r) (all_services sds) (True # ticks) (world s0)"
    by (rule schedule_handler_resolved)
qed

theorem shutdown_ordering_witness:
  "shutdown search_responder (\<lambda>u. True) empty_state = Some (Inr (), shutdown_done) \<and>
   services_opt search_responder = Some [two_services] \<and>
   schedule_handler search_responder [False, True] empty_state = (Inr (), scheduler_done) \<and>
   (\<exists>after. events shutdown_done =
        events empty_state @ [Set_running False, Joined Scheduler, Joined Receiver] @ after \<and>
      map Inr (sends after) =
        announcements ''ssdp:goodbye'' (address search_responder, port search_responder)
          (all_services [two_services]) (world empty_state) \<and>
      length (sends after) = length (all_services [two_services])) \<and>
   map Inr (sends (events scheduler_done)) =
     map Inr (sends (events empty_state)) @
       alive_passes (address search_responder, port search_responder)
         (all_services [two_services]) [True, False, True] (world empty_state) \<and>
   announcements ''ssdp:goodbye'' multicast_group (all_services [two_services]) () =
     [Inr (bye_a, multicast_group), Inr (bye_c, multicast_group)] \<and>
   alive_passes multicast_group (all_services [two_services]) [True, False, True] () =
     [Inr (alive_a, multicast_group), Inr (alive_c, multicast_group),
      Inr (alive_a, multicast_group), Inr (alive_c, multicast_group)]"
proof -
  have h: "services_opt search_responder = Some [two_services]"
    by (simp add: search_responder_def)
  note t = shutdown_ordering
    [of search_responder "\<lambda>u. True" empty_state "Inr ()" shutdown_done "[two_services]"
        "[False, True]" empty_state scheduler_done]
  from t shutdown_run h
  have 1: "\<exists>after. events shutdown_done =
        events empty_state @ [Set_running False, Joined Scheduler, Joined Receiver] @ after \<and>
      map Inr (sends after) =
        announcements ''ssdp:goodbye'' (address search_responder, port search_responder)
          (all_services [two_services]) (world empty_state) \<and>
      length (sends after) = length (all_services [two_services])"
    by blast
  from t scheduler_run h
  have 2: "map Inr (sends (events scheduler_done)) =
     map Inr (sends (events empty_state)) @
       alive_passes (address search_responder, port search_responder)
         (all_services [two_services]) [True, False, True] (world empty_state)"
    by blast
  from shutdown_run h scheduler_run 1 2 goodbye_expected alive_expected
  show ?thesis by (intro conjI)
qed

section \<open>Properties of the spoofing responder's construction\<close>

text \<open>
  Claim C7 against the code. Constructed by a process with user id 0, the spoofing
  responder opens its raw sockets and then raises \<open>AttributeError\<close>, because
  \<open>setup_sockets\<close> reads \<open>interface\<close> before the constructor has assigned it: privileges
  are never dropped. For an object that already has \<open>interface\<close>, the receiver and the
  scheduler are started before \<open>setgroups\<close>, \<open>setgid\<close> and \<open>setuid\<close> run.
\<close>

theorem spoofing_init_never_drops_privileges:
  "spoofing_init passwd groupdb ''nobody'' ''nogroup'' ''eth0'' new_spoofer root_process =
     (Inl (AttributeError ''interface''), new_spoofer,
      root_process\<lparr>trace := [Raw_socket_opened, Packet_socket_opened]\<rparr>) \<and>
   uid (snd (snd (spoofing_init passwd groupdb ''nobody'' ''nogroup'' ''eth0''
                    new_spoofer root_process))) = 0 \<and>
   snd (snd (spoofing_init passwd groupdb ''nobody'' ''nogroup'' ''eth0''
               (new_spoofer\<lparr>interface := Some ''eth0''\<rparr>) root_process)) =
     \<lparr>uid = 65534, gid = 65534, groups = [], umask = 63,
      trace = [Raw_socket_opened, Packet_socket_opened, Bound ''eth0'',
               Started Receiver, Started Scheduler,
               Setgroups [], Setgid 65534, Setuid 65534, Umask 63]\<rparr>"
  by code_simp

end
